theory Spec2Isabelle
  imports Main "HOL-Library.Word" "HOL-Library.Signed_Division" "HOL-Library.Multiset"
begin

section \<open>Machine integers of the Go program\<close>

text \<open>
  The program is built for a 64-bit Linux target, so Go's \<open>int\<close> and
  \<open>time.Duration\<close> (an \<open>int64\<close> of nanoseconds) are both 64-bit two's complement
  integers.  Addition wraps, comparison is signed, and \<open>/\<close> truncates towards
  zero and panics on a zero divisor.
\<close>

type_synonym int64 = "64 word"

datatype panic = DivideByZero | SendOnClosedChannel | NegativeWaitGroup | MakeChanSize

definition go_div :: "int64 \<Rightarrow> int64 \<Rightarrow> panic + int64" where
  "go_div a b =
     (if b = 0 then Inl DivideByZero
      else Inr (word_of_int (sint a sdiv sint b)))"

definition Hour :: int64 where
  "Hour = 3600000000000"

definition StatusOK :: int64 where
  "StatusOK = 200"

section \<open>Data model: \<open>Result\<close> and \<open>Report\<close>\<close>

text \<open>
  \<open>Error\<close> is Go's \<open>error\<close> interface value: \<open>None\<close> is \<open>nil\<close>, \<open>Some msg\<close> a
  non-nil error.  \<open>StatusCodes\<close> is the \<open>map[int]int\<close>; a key that is absent
  reads as the zero value.
\<close>

record Result =
  StatusCode :: int64
  Duration :: int64
  Error :: "string option"

record Report =
  TotalRequests :: int64
  TotalDuration :: int64
  StatusCodes :: "int64 \<rightharpoonup> int64"
  SuccessfulRequests :: int64
  FailedRequests :: int64
  AverageTime :: int64
  MinTime :: int64
  MaxTime :: int64

section \<open>The request worker (body of the goroutine, lines 79--93)\<close>

text \<open>
  \<open>http.Get\<close> returns either a non-nil error (\<open>Inl\<close>; the response is then
  not looked at) or a nil error and a response with a status code (\<open>Inr\<close>);
  the measured duration is what \<open>time.Since(start)\<close> returned.  Both come
  from the environment.  A \<open>Result\<close> literal without \<open>StatusCode\<close> has the zero
  value there.
\<close>

definition worker_result :: "string + int64 \<Rightarrow> int64 \<Rightarrow> Result" where
  "worker_result got duration =
     (let err = (case got of Inl e \<Rightarrow> Some e | Inr _ \<Rightarrow> None);
          result = \<lparr>StatusCode = 0, Duration = duration, Error = err\<rparr>
      in case got of
           Inr code \<Rightarrow> result\<lparr>StatusCode := code\<rparr>
         | Inl _ \<Rightarrow> result)"

section \<open>The collector of \<open>runLoadTest\<close> (lines 102--136)\<close>

definition initReport :: "int64 \<Rightarrow> Report" where
  "initReport totalRequests =
     \<lparr>TotalRequests = totalRequests, TotalDuration = 0, StatusCodes = Map.empty,
      SuccessfulRequests = 0, FailedRequests = 0, AverageTime = 0,
      MinTime = Hour, MaxTime = 0\<rparr>"

text \<open>\<open>m[k]++\<close> on a Go map: a missing key reads as 0.\<close>

definition map_incr :: "(int64 \<rightharpoonup> int64) \<Rightarrow> int64 \<Rightarrow> (int64 \<rightharpoonup> int64)" where
  "map_incr m k = m(k \<mapsto> (case m k of None \<Rightarrow> 0 | Some c \<Rightarrow> c) + 1)"

text \<open>
  One iteration of \<open>for result := range resultChan\<close>.  The loop state is the
  report together with the local \<open>totalTime\<close>.
\<close>

definition collect_step :: "Report \<times> int64 \<Rightarrow> Result \<Rightarrow> Report \<times> int64" where
  "collect_step st result =
     (case st of (report, totalTime) \<Rightarrow>
        if Error result \<noteq> None
        then (report\<lparr>FailedRequests := FailedRequests report + 1\<rparr>, totalTime)
        else
          let report1 = report\<lparr>StatusCodes := map_incr (StatusCodes report) (StatusCode result)\<rparr>;
              totalTime1 = totalTime + Duration result;
              report2 = (if StatusCode result = StatusOK
                         then report1\<lparr>SuccessfulRequests := SuccessfulRequests report1 + 1\<rparr>
                         else report1);
              report3 = (if sint (Duration result) < sint (MinTime report2)
                         then report2\<lparr>MinTime := Duration result\<rparr>
                         else report2);
              report4 = (if sint (Duration result) > sint (MaxTime report3)
                         then report3\<lparr>MaxTime := Duration result\<rparr>
                         else report3)
          in (report4, totalTime1))"

fun collect :: "Result list \<Rightarrow> Report \<times> int64 \<Rightarrow> Report \<times> int64" where
  "collect [] st = st"
| "collect (result # rest) st = collect rest (collect_step st result)"

text \<open>
  Lines 131--136.  \<open>elapsed\<close> is the value of \<open>time.Since(startTime)\<close>.
\<close>

definition finish :: "int64 \<Rightarrow> int64 \<Rightarrow> Report \<times> int64 \<Rightarrow> panic + Report" where
  "finish totalRequests elapsed st =
     (case st of (report, totalTime) \<Rightarrow>
        let report1 = report\<lparr>TotalDuration := elapsed\<rparr>
        in if sint (totalRequests - FailedRequests report1) > 0
           then (case go_div totalTime (totalRequests - FailedRequests report1) of
                   Inl p \<Rightarrow> Inl p
                 | Inr q \<Rightarrow> Inr (report1\<lparr>AverageTime := q\<rparr>))
           else Inr report1)"

text \<open>
  The sequential part of \<open>runLoadTest\<close>: \<open>results\<close> is the sequence of values
  the \<open>range\<close> loop receives from \<open>resultChan\<close> until the channel is closed.
\<close>

definition runLoadTest :: "int64 \<Rightarrow> int64 \<Rightarrow> Result list \<Rightarrow> panic + Report" where
  "runLoadTest totalRequests elapsed results =
     finish totalRequests elapsed (collect results (initReport totalRequests, 0))"

section \<open>Views of a list of outcomes\<close>

definition succeeded :: "Result list \<Rightarrow> Result list" where
  "succeeded rs = filter (\<lambda>r. Error r = None) rs"

definition failed :: "Result list \<Rightarrow> Result list" where
  "failed rs = filter (\<lambda>r. Error r \<noteq> None) rs"

text \<open>Number of non-error outcomes that carry the status code \<open>c\<close>.\<close>

definition code_count :: "Result list \<Rightarrow> int64 \<Rightarrow> nat" where
  "code_count rs c = length (filter (\<lambda>r. StatusCode r = c) (succeeded rs))"

section \<open>The goroutines of \<open>runLoadTest\<close> (lines 63--100 and 110)\<close>

text \<open>
  The goroutines communicate only through the two channels and the wait
  group, so a run is an interleaving of their steps, one operation on a
  shared object per step.  A state holds a program counter for \<open>main\<close>, for
  each worker goroutine and for the goroutine that closes \<open>resultChan\<close>, and
  the contents of the shared objects.

  Worker (lines 73--94; deferred calls run last in, first out):
  \<^item> \<open>W_Acquire\<close>: about to send on \<open>semaphore\<close> (line 76);
  \<^item> \<open>W_Request\<close>: holds a slot, about to run the timed \<open>http.Get\<close> and build
    the result (lines 79--91);
  \<^item> \<open>W_Send r\<close>: about to send \<open>r\<close> on \<open>resultChan\<close> (line 93);
  \<^item> \<open>W_Release\<close>: about to run the deferred receive from \<open>semaphore\<close> (line 77);
  \<^item> \<open>W_Done\<close>: about to run the deferred \<open>wg.Done()\<close> (line 74);
  \<^item> \<open>W_Exited\<close>: the goroutine has ended.
\<close>

datatype wpc = W_Acquire | W_Request | W_Send Result | W_Release | W_Done | W_Exited

text \<open>
  \<open>main\<close> inside \<open>runLoadTest\<close>: \<open>M_Loop i\<close> is the loop test of line 71 with
  counter \<open>i\<close>, followed by \<open>wg.Add(1)\<close> (line 72) or, when the loop ends, by the
  \<open>go\<close> statement of line 97; \<open>M_Go i\<close> is the \<open>go\<close> statement of line 73;
  \<open>M_Range\<close> is the receive of the \<open>range\<close> loop (line 110); \<open>M_Return\<close> is
  reached when the loop has ended.
\<close>

datatype mpc = M_Loop nat | M_Go nat | M_Range | M_Return

text \<open>The goroutine of lines 97--100: \<open>wg.Wait()\<close>, then \<open>close(resultChan)\<close>.\<close>

datatype cpc = C_NotStarted | C_Wait | C_Close | C_Exited

text \<open>
  \<open>semaphore\<close> holds values of \<open>struct{}\<close>, so only their number matters;
  \<open>resultChan\<close> is the queue of buffered results; \<open>received\<close> is the sequence
  of results the \<open>range\<close> loop has received so far, to which the loop body
  (\<open>collect_step\<close>) is applied in this order.
\<close>

record sys =
  mainpc :: mpc
  workers :: "wpc list"
  closer :: cpc
  wg :: nat
  semaphore :: nat
  resultChan :: "Result list"
  chanClosed :: bool
  received :: "Result list"
  panicked :: "panic option"

text \<open>
  The arguments of \<open>runLoadTest\<close> and the environment: what \<open>http.Get\<close> returns
  to the \<open>i\<close>-th goroutine, the duration it measures, and the number of bytes
  the Go runtime grants to the buffer of a channel (\<open>maxAlloc - hchanSize\<close> in
  \<open>runtime.makechan\<close>, below \<open>2^48\<close> on 64-bit Linux; less where the memory is
  not there).
\<close>

record world =
  w_totalRequests :: int64
  w_concurrency :: int64
  w_reply :: "nat \<Rightarrow> string + int64"
  w_duration :: "nat \<Rightarrow> int64"
  w_maxAlloc :: nat

definition outcome :: "world \<Rightarrow> nat \<Rightarrow> Result" where
  "outcome w i = worker_result (w_reply w i) (w_duration w i)"

text \<open>
  \<open>make(chan T, cap)\<close> panics (\<open>makechan: size out of range\<close>) when \<open>cap\<close> is
  negative, or the size of the buffer, \<open>sizeof(T) * cap\<close>, overflows a machine
  word or exceeds the limit.  A \<open>Result\<close> takes 32 bytes (an \<open>int\<close>, an \<open>int64\<close>
  and an interface value), a \<open>struct{}\<close> none.
\<close>

definition makechan_ok :: "nat \<Rightarrow> nat \<Rightarrow> int64 \<Rightarrow> bool" where
  "makechan_ok maxAlloc elemSize cap =
     (0 \<le> sint cap \<and> elemSize * nat (sint cap) < 2 ^ 64 \<and>
      elemSize * nat (sint cap) \<le> maxAlloc)"

definition sizeof_Result :: nat where
  "sizeof_Result = 32"

definition sizeof_struct :: nat where
  "sizeof_struct = 0"

text \<open>Lines 63--69: the two channels are made before anything else.\<close>

definition init :: "world \<Rightarrow> sys" where
  "init w =
     \<lparr>mainpc = M_Loop 0, workers = [], closer = C_NotStarted, wg = 0, semaphore = 0,
      resultChan = [], chanClosed = False, received = [],
      panicked = (if makechan_ok (w_maxAlloc w) sizeof_Result (w_totalRequests w) \<and>
                     makechan_ok (w_maxAlloc w) sizeof_struct (w_concurrency w)
                  then None else Some MakeChanSize)\<rparr>"

text \<open>
  The counter of a \<open>sync.WaitGroup\<close> is a signed 32-bit number: \<open>wg.Add(1)\<close>
  panics (\<open>negative WaitGroup counter\<close>) when the counter would reach \<open>2^31\<close>.
\<close>

definition main_step :: "world \<Rightarrow> sys \<Rightarrow> sys option" where
  "main_step w s =
     (case mainpc s of
        M_Loop i \<Rightarrow>
          if int i < sint (w_totalRequests w)
          then (if wg s + 1 < 2 ^ 31
                then Some (s\<lparr>wg := wg s + 1, mainpc := M_Go i\<rparr>)
                else Some (s\<lparr>panicked := Some NegativeWaitGroup\<rparr>))
          else Some (s\<lparr>closer := C_Wait, mainpc := M_Range\<rparr>)
      | M_Go i \<Rightarrow> Some (s\<lparr>workers := workers s @ [W_Acquire], mainpc := M_Loop (i + 1)\<rparr>)
      | M_Range \<Rightarrow>
          (case resultChan s of
             r # rest \<Rightarrow> Some (s\<lparr>resultChan := rest, received := received s @ [r]\<rparr>)
           | [] \<Rightarrow> if chanClosed s then Some (s\<lparr>mainpc := M_Return\<rparr>) else None)
      | M_Return \<Rightarrow> None)"

definition closer_step :: "sys \<Rightarrow> sys option" where
  "closer_step s =
     (case closer s of
        C_NotStarted \<Rightarrow> None
      | C_Wait \<Rightarrow> if wg s = 0 then Some (s\<lparr>closer := C_Close\<rparr>) else None
      | C_Close \<Rightarrow> Some (s\<lparr>chanClosed := True, closer := C_Exited\<rparr>)
      | C_Exited \<Rightarrow> None)"

text \<open>
  A send on a buffered channel blocks while the buffer is full, a receive
  while it is empty; a send on a closed channel panics, and so does a
  \<open>wg.Done()\<close> that would make the counter negative.  (On a channel of
  capacity 0 a send waits for a receiver; every receive from \<open>semaphore\<close> is
  deferred behind a send on it, so such a send never proceeds, as here.)
  The \<open>http.Get\<close> of a worker is taken to return, and the memory to suffice
  for the goroutines.
\<close>

definition worker_step :: "world \<Rightarrow> nat \<Rightarrow> sys \<Rightarrow> sys option" where
  "worker_step w i s =
     (if length (workers s) \<le> i then None
      else case workers s ! i of
        W_Acquire \<Rightarrow>
          if semaphore s < nat (sint (w_concurrency w))
          then Some (s\<lparr>semaphore := semaphore s + 1, workers := (workers s)[i := W_Request]\<rparr>)
          else None
      | W_Request \<Rightarrow> Some (s\<lparr>workers := (workers s)[i := W_Send (outcome w i)]\<rparr>)
      | W_Send r \<Rightarrow>
          if chanClosed s then Some (s\<lparr>panicked := Some SendOnClosedChannel\<rparr>)
          else if length (resultChan s) < nat (sint (w_totalRequests w))
          then Some (s\<lparr>resultChan := resultChan s @ [r], workers := (workers s)[i := W_Release]\<rparr>)
          else None
      | W_Release \<Rightarrow>
          if 0 < semaphore s
          then Some (s\<lparr>semaphore := semaphore s - 1, workers := (workers s)[i := W_Done]\<rparr>)
          else None
      | W_Done \<Rightarrow>
          if wg s = 0 then Some (s\<lparr>panicked := Some NegativeWaitGroup\<rparr>)
          else Some (s\<lparr>wg := wg s - 1, workers := (workers s)[i := W_Exited]\<rparr>)
      | W_Exited \<Rightarrow> None)"

text \<open>
  The scheduler picks a goroutine; \<open>None\<close> means that it cannot move (it is
  blocked, has ended, or the program has panicked).
\<close>

datatype actor = Main | Closer | Worker nat

definition step :: "world \<Rightarrow> actor \<Rightarrow> sys \<Rightarrow> sys option" where
  "step w a s =
     (if panicked s \<noteq> None then None
      else case a of
        Main \<Rightarrow> main_step w s
      | Closer \<Rightarrow> closer_step s
      | Worker i \<Rightarrow> worker_step w i s)"

fun run :: "world \<Rightarrow> actor list \<Rightarrow> sys \<Rightarrow> sys option" where
  "run w [] s = Some s"
| "run w (a # sched) s = (case step w a s of None \<Rightarrow> None | Some s' \<Rightarrow> run w sched s')"

text \<open>
  The state after a schedule in which the turn of a goroutine that cannot
  move is passed over.
\<close>

fun exec :: "world \<Rightarrow> actor list \<Rightarrow> sys \<Rightarrow> sys" where
  "exec w [] s = s"
| "exec w (a # sched) s = exec w sched (case step w a s of None \<Rightarrow> s | Some s' \<Rightarrow> s')"

text \<open>A worker holds an admission slot from its send on \<open>semaphore\<close> to its receive.\<close>

fun holds_slot :: "wpc \<Rightarrow> bool" where
  "holds_slot W_Request = True"
| "holds_slot (W_Send r) = True"
| "holds_slot W_Release = True"
| "holds_slot p = False"

definition holders :: "sys \<Rightarrow> nat" where
  "holders s = length (filter holds_slot (workers s))"

section \<open>\<open>main\<close> (lines 30--60)\<close>

text \<open>
  \<open>url\<close>, \<open>w_totalRequests w\<close> and \<open>w_concurrency w\<close> are the values of the three
  flags after \<open>flag.Parse\<close>; \<open>elapsed\<close> is the value of \<open>time.Since(startTime)\<close>
  and \<open>sched\<close> the schedule of the goroutines.
  \<open>Exited c msg\<close> is \<open>os.Exit(c)\<close> after printing \<open>msg\<close>, which happens before
  \<open>runLoadTest\<close> is called; \<open>Panicked\<close> is a run-time panic, which ends the
  process with exit status 2; \<open>Returned\<close> is \<open>main\<close> returning after
  \<open>printReport\<close>, which gives exit status 0; \<open>Running\<close> says that the
  schedule ends before the program does.
\<close>

datatype main_result = Exited nat string | Panicked panic | Returned Report | Running

text \<open>
  The whole of \<open>runLoadTest\<close>: the goroutines run under the schedule; when the
  \<open>range\<close> loop has ended, the report is what the collector makes of the
  results received.
\<close>

definition runLoadTest_under :: "world \<Rightarrow> int64 \<Rightarrow> actor list \<Rightarrow> main_result" where
  "runLoadTest_under w elapsed sched =
     (let s = exec w sched (init w) in
      case panicked s of
        Some p \<Rightarrow> Panicked p
      | None \<Rightarrow>
          if mainpc s = M_Return
          then (case runLoadTest (w_totalRequests w) elapsed (received s) of
                  Inl p \<Rightarrow> Panicked p
                | Inr report \<Rightarrow> Returned report)
          else Running)"

definition main :: "string \<Rightarrow> world \<Rightarrow> int64 \<Rightarrow> actor list \<Rightarrow> main_result" where
  "main url w elapsed sched =
     (if url = []
      then Exited 1 ''Error: URL is required''
      else if sint (w_totalRequests w) \<le> 0
      then Exited 1 ''Error: Number of requests must be greater than 0''
      else if sint (w_concurrency w) \<le> 0 \<or> sint (w_concurrency w) > sint (w_totalRequests w)
      then Exited 1
        ''Error: Concurrency must be greater than 0 and less than or equal to the number of requests''
      else runLoadTest_under w elapsed sched)"

fun exit_status :: "main_result \<Rightarrow> nat option" where
  "exit_status (Exited c msg) = Some c"
| "exit_status (Panicked p) = Some 2"
| "exit_status (Returned report) = Some 0"
| "exit_status Running = None"

text \<open>
  The number of requests dispatched: the goroutines started by the \<open>go\<close>
  statement of line 73.  An exit in \<open>main\<close> comes before the first.
\<close>

definition dispatched :: "string \<Rightarrow> world \<Rightarrow> actor list \<Rightarrow> nat" where
  "dispatched url w sched =
     (case main url w 0 sched of
        Exited c msg \<Rightarrow> 0
      | _ \<Rightarrow> length (workers (exec w sched (init w))))"

section \<open>Auxiliary notions for the invariants\<close>

fun has_sent :: "wpc \<Rightarrow> bool" where
  "has_sent W_Release = True"
| "has_sent W_Done = True"
| "has_sent W_Exited = True"
| "has_sent p = False"

fun alive :: "wpc \<Rightarrow> bool" where
  "alive W_Exited = False"
| "alive p = True"

text \<open>The results sent so far by the workers \<open>k, k + 1, \<dots>\<close> with counters \<open>ps\<close>.\<close>

fun sent_from :: "world \<Rightarrow> nat \<Rightarrow> wpc list \<Rightarrow> Result multiset" where
  "sent_from w k [] = {#}"
| "sent_from w k (p # ps) =
     (if has_sent p then {#outcome w k#} else {#}) + sent_from w (Suc k) ps"

text \<open>A worker about to send carries its own outcome.\<close>

fun carries :: "world \<Rightarrow> nat \<Rightarrow> wpc \<Rightarrow> bool" where
  "carries w k (W_Send r) = (r = outcome w k)"
| "carries w k p = True"

fun carries_from :: "world \<Rightarrow> nat \<Rightarrow> wpc list \<Rightarrow> bool" where
  "carries_from w k [] = True"
| "carries_from w k (p # ps) = (carries w k p \<and> carries_from w (Suc k) ps)"

text \<open>Steps that remain for a worker, for the closer and for \<open>main\<close>.\<close>

fun worker_todo :: "wpc \<Rightarrow> nat" where
  "worker_todo W_Acquire = 5"
| "worker_todo W_Request = 4"
| "worker_todo (W_Send r) = 3"
| "worker_todo W_Release = 2"
| "worker_todo W_Done = 1"
| "worker_todo W_Exited = 0"

fun closer_todo :: "cpc \<Rightarrow> nat" where
  "closer_todo C_NotStarted = 2"
| "closer_todo C_Wait = 2"
| "closer_todo C_Close = 1"
| "closer_todo C_Exited = 0"

fun main_todo :: "nat \<Rightarrow> nat \<Rightarrow> mpc \<Rightarrow> nat" where
  "main_todo n k (M_Loop i) = 7 * (n - i) + 1 + (n - k) + 1"
| "main_todo n k (M_Go i) = 7 * (n - i) + (n - k) + 1"
| "main_todo n k M_Range = (n - k) + 1"
| "main_todo n k M_Return = 0"

definition todo :: "world \<Rightarrow> sys \<Rightarrow> nat" where
  "todo w s =
     main_todo (nat (sint (w_totalRequests w))) (length (received s)) (mainpc s)
     + closer_todo (closer s)
     + sum_list (map worker_todo (workers s))"

text \<open>
  The invariant of the run.  \<open>main\<close> has started as many workers as its loop
  counter says and starts the closer when the loop has ended; the wait group
  counts the workers that have not ended, and the one announced by a
  \<open>wg.Add(1)\<close> whose \<open>go\<close> statement is still to come; \<open>semaphore\<close> holds one
  value per worker between its send and its receive; the closer passes
  \<open>wg.Wait()\<close> only at counter zero and the channel is closed by it alone;
  the results received or buffered are those of the workers that have sent.
  A panic leaves all of this as it is.
\<close>

fun pc_ok :: "nat \<Rightarrow> mpc \<Rightarrow> nat \<Rightarrow> cpc \<Rightarrow> Result list \<Rightarrow> bool" where
  "pc_ok n (M_Loop i) len c ch = (len = i \<and> i \<le> n \<and> c = C_NotStarted)"
| "pc_ok n (M_Go i) len c ch = (len = i \<and> i < n \<and> c = C_NotStarted)"
| "pc_ok n M_Range len c ch = (len = n \<and> c \<noteq> C_NotStarted)"
| "pc_ok n M_Return len c ch = (len = n \<and> c = C_Exited \<and> ch = [])"

fun announced :: "mpc \<Rightarrow> nat" where
  "announced (M_Go i) = 1"
| "announced p = 0"

fun passed_wait :: "cpc \<Rightarrow> bool" where
  "passed_wait C_Close = True"
| "passed_wait C_Exited = True"
| "passed_wait c = False"

definition inv_pc :: "world \<Rightarrow> sys \<Rightarrow> bool" where
  "inv_pc w s =
     pc_ok (nat (sint (w_totalRequests w))) (mainpc s) (length (workers s)) (closer s)
       (resultChan s)"

definition inv_wg :: "sys \<Rightarrow> bool" where
  "inv_wg s = (wg s = length (filter alive (workers s)) + announced (mainpc s))"

definition inv_sem :: "world \<Rightarrow> sys \<Rightarrow> bool" where
  "inv_sem w s = (semaphore s = holders s \<and> semaphore s \<le> nat (sint (w_concurrency w)))"

definition inv_close :: "sys \<Rightarrow> bool" where
  "inv_close s =
     ((passed_wait (closer s) \<longrightarrow> wg s = 0) \<and> (chanClosed s \<longleftrightarrow> closer s = C_Exited))"

definition inv_msgs :: "world \<Rightarrow> sys \<Rightarrow> bool" where
  "inv_msgs w s =
     (mset (received s) + mset (resultChan s) = sent_from w 0 (workers s) \<and>
      carries_from w 0 (workers s))"

definition inv :: "world \<Rightarrow> sys \<Rightarrow> bool" where
  "inv w s = (inv_pc w s \<and> inv_wg s \<and> inv_sem w s \<and> inv_close s \<and> inv_msgs w s)"

section \<open>Small runs, used to exercise the theorems\<close>

text \<open>Two requests, one slot; the first is answered with 200, the second fails.\<close>

definition two_requests :: world where
  "two_requests =
     \<lparr>w_totalRequests = 2, w_concurrency = 1,
      w_reply = (\<lambda>i. if i = 0 then Inr 200 else Inl ''timeout''),
      w_duration = (\<lambda>i. 7), w_maxAlloc = 281474976710560\<rparr>"

text \<open>
  \<open>2^62\<close> requests, one slot: the arguments are valid for \<open>main\<close>, and the buffer
  of \<open>resultChan\<close> would take \<open>2^67\<close> bytes.
\<close>

definition huge_request :: world where
  "huge_request =
     \<lparr>w_totalRequests = 4611686018427387904, w_concurrency = 1,
      w_reply = (\<lambda>i. Inr 200), w_duration = (\<lambda>i. 7), w_maxAlloc = 281474976710560\<rparr>"

text \<open>\<open>2^31\<close> requests, one slot: a buffer of 64 GiB.\<close>

definition many_requests :: world where
  "many_requests =
     \<lparr>w_totalRequests = 2147483648, w_concurrency = 1,
      w_reply = (\<lambda>i. Inr 200), w_duration = (\<lambda>i. 7), w_maxAlloc = 281474976710560\<rparr>"

section \<open>Properties of the collector\<close>

lemma length_succeeded_failed: "length (succeeded rs) + length (failed rs) = length rs"
  by (induction rs) (simp_all add: succeeded_def failed_def)

lemma collect_step_error:
  "Error r \<noteq> None \<Longrightarrow> collect_step (rep, t) r = (rep\<lparr>FailedRequests := FailedRequests rep + 1\<rparr>, t)"
  by (simp add: collect_step_def)

lemma collect_step_fields:
  "TotalRequests (fst (collect_step st r)) = TotalRequests (fst st)"
  "TotalDuration (fst (collect_step st r)) = TotalDuration (fst st)"
  "AverageTime (fst (collect_step st r)) = AverageTime (fst st)"
  by (cases st; simp add: collect_step_def Let_def)+

lemma collect_step_failed:
  "FailedRequests (fst (collect_step st r)) =
     FailedRequests (fst st) + (if Error r \<noteq> None then 1 else 0)"
  by (cases st) (simp add: collect_step_def Let_def)

lemma collect_step_successful:
  "SuccessfulRequests (fst (collect_step st r)) =
     SuccessfulRequests (fst st) + (if Error r = None \<and> StatusCode r = StatusOK then 1 else 0)"
  by (cases st) (simp add: collect_step_def Let_def)

lemma collect_step_totalTime:
  "snd (collect_step st r) = snd st + (if Error r = None then Duration r else 0)"
  by (cases st) (simp add: collect_step_def Let_def)

lemma collect_step_min:
  "sint (MinTime (fst (collect_step st r))) =
     (if Error r = None then min (sint (MinTime (fst st))) (sint (Duration r)) else sint (MinTime (fst st)))"
  by (cases st) (simp add: collect_step_def Let_def min_def)

lemma collect_step_max:
  "sint (MaxTime (fst (collect_step st r))) =
     (if Error r = None then max (sint (MaxTime (fst st))) (sint (Duration r)) else sint (MaxTime (fst st)))"
  by (cases st) (simp add: collect_step_def Let_def max_def)

lemma collect_step_codes:
  "StatusCodes (fst (collect_step st r)) =
     (if Error r = None then map_incr (StatusCodes (fst st)) (StatusCode r) else StatusCodes (fst st))"
  by (cases st) (simp add: collect_step_def Let_def)

lemma collect_failed:
  "FailedRequests (fst (collect rs st)) = FailedRequests (fst st) + of_nat (length (failed rs))"
  by (induction rs arbitrary: st) (simp_all add: collect_step_failed failed_def)

lemma collect_successful:
  "SuccessfulRequests (fst (collect rs st)) =
     SuccessfulRequests (fst st) + of_nat (length (filter (\<lambda>r. StatusCode r = StatusOK) (succeeded rs)))"
  by (induction rs arbitrary: st) (simp_all add: collect_step_successful succeeded_def)

lemma collect_totalTime:
  "snd (collect rs st) = snd st + sum_list (map Duration (succeeded rs))"
  by (induction rs arbitrary: st) (simp_all add: collect_step_totalTime succeeded_def)

lemma Min_insert_min:
  "finite S \<Longrightarrow> Min (insert (min a b) S) = Min (insert a (insert b S))"
  by (cases "S = {}") (simp_all add: min.assoc)

lemma Max_insert_max:
  "finite S \<Longrightarrow> Max (insert (max a b) S) = Max (insert a (insert b S))"
  by (cases "S = {}") (simp_all add: max.assoc)

lemma collect_min:
  "sint (MinTime (fst (collect rs st))) =
     Min (set (sint (MinTime (fst st)) # map (\<lambda>r. sint (Duration r)) (succeeded rs)))"
proof (induction rs arbitrary: st)
  case Nil
  then show ?case by (simp add: succeeded_def)
next
  case (Cons r rs)
  show ?case
  proof (cases "Error r = None")
    case True
    then show ?thesis
      using Cons.IH [of "collect_step st r"]
      by (simp add: collect_step_min succeeded_def Min_insert_min)
  next
    case False
    then show ?thesis
      using Cons.IH [of "collect_step st r"]
      by (auto simp add: collect_step_min succeeded_def)
  qed
qed

lemma sint_of_nat_64:
  "n < 2 ^ 63 \<Longrightarrow> sint (of_nat n :: int64) = int n"
  by (simp add: signed_of_nat signed_take_bit_int_eq_self)

lemma sint_of_int_64:
  "- (2 ^ 63) \<le> k \<Longrightarrow> k < 2 ^ 63 \<Longrightarrow> sint (word_of_int k :: int64) = k"
  by (simp add: signed_of_int signed_take_bit_int_eq_self)

lemma sint_64_bounds: "- (2 ^ 63) \<le> sint (w :: int64)" "sint (w :: int64) < 2 ^ 63"
  using sint_greater_eq [of w] sint_less [of w] by simp_all

lemma collect_max:
  "sint (MaxTime (fst (collect rs st))) =
     Max (set (sint (MaxTime (fst st)) # map (\<lambda>r. sint (Duration r)) (succeeded rs)))"
proof (induction rs arbitrary: st)
  case Nil
  then show ?case by (simp add: succeeded_def)
next
  case (Cons r rs)
  show ?case
    using Cons.IH [of "collect_step st r"]
    by (cases "Error r") (auto simp add: collect_step_max succeeded_def Max_insert_max)
qed

lemma collect_fields:
  "TotalRequests (fst (collect rs st)) = TotalRequests (fst st)"
  "TotalDuration (fst (collect rs st)) = TotalDuration (fst st)"
  "AverageTime (fst (collect rs st)) = AverageTime (fst st)"
  by (induction rs arbitrary: st; simp add: collect_step_fields)+

lemma collect_codes:
  "StatusCodes (fst (collect rs st)) c =
     (if code_count rs c = 0 then StatusCodes (fst st) c
      else Some ((case StatusCodes (fst st) c of None \<Rightarrow> 0 | Some v \<Rightarrow> v) + of_nat (code_count rs c)))"
proof (induction rs arbitrary: st)
  case Nil
  then show ?case by (simp add: code_count_def succeeded_def)
next
  case (Cons r rs)
  show ?case
    using Cons.IH [of "collect_step st r"]
    by (cases "Error r")
       (auto simp add: collect_step_codes code_count_def succeeded_def map_incr_def split: option.splits)
qed

lemma finish_returns:
  "\<exists>rep. finish n el st = Inr rep"
  by (cases st) (auto simp add: finish_def go_div_def Let_def)

lemma finish_fields:
  assumes "finish n el st = Inr rep"
  shows "TotalRequests rep = TotalRequests (fst st)"
    and "StatusCodes rep = StatusCodes (fst st)"
    and "SuccessfulRequests rep = SuccessfulRequests (fst st)"
    and "FailedRequests rep = FailedRequests (fst st)"
    and "MinTime rep = MinTime (fst st)"
    and "MaxTime rep = MaxTime (fst st)"
    and "TotalDuration rep = el"
  using assms
  by (cases st; auto simp add: finish_def go_div_def Let_def split: if_splits)+

lemma finish_average:
  assumes "finish n el st = Inr rep"
  shows "AverageTime rep =
     (if 0 < sint (n - FailedRequests (fst st))
      then word_of_int (sint (snd st) sdiv sint (n - FailedRequests (fst st)))
      else AverageTime (fst st))"
  using assms
  by (cases st) (auto simp add: finish_def go_div_def Let_def split: if_splits)

lemma collect_step_failed_upd:
  "Error r = None \<Longrightarrow>
   collect_step (rep\<lparr>FailedRequests := f\<rparr>, t) r =
     (fst (collect_step (rep, t) r)\<lparr>FailedRequests := f\<rparr>, snd (collect_step (rep, t) r))"
  by (simp add: collect_step_def Let_def)

lemma collect_failed_upd:
  "\<forall>r \<in> set rs. Error r = None \<Longrightarrow>
   collect rs (rep\<lparr>FailedRequests := f\<rparr>, t) =
     (fst (collect rs (rep, t))\<lparr>FailedRequests := f\<rparr>, snd (collect rs (rep, t)))"
proof (induction rs arbitrary: rep t)
  case Nil
  then show ?case by simp
next
  case (Cons r rs)
  obtain rep' t' where st: "collect_step (rep, t) r = (rep', t')"
    by (cases "collect_step (rep, t) r")
  from Cons.prems have r: "Error r = None" and rs: "\<forall>r \<in> set rs. Error r = None"
    by simp_all
  show ?case
    using Cons.IH [OF rs, of rep' t'] st
    by (simp add: collect_step_failed_upd [OF r])
qed

lemma succeeded_all_ok: "\<forall>r \<in> set (succeeded rs). Error r = None"
  by (simp add: succeeded_def)

lemma succeeded_Cons:
  "succeeded (r # rs) = (if Error r = None then r # succeeded rs else succeeded rs)"
  by (simp add: succeeded_def)

lemma failed_Cons:
  "failed (r # rs) = (if Error r = None then failed rs else r # failed rs)"
  by (simp add: failed_def)

lemma collect_succeeded:
  "collect rs (rep, t) =
     (fst (collect (succeeded rs) (rep, t))
        \<lparr>FailedRequests := FailedRequests rep + of_nat (length (failed rs))\<rparr>,
      snd (collect (succeeded rs) (rep, t)))"
proof (induction rs arbitrary: rep t)
  case Nil
  then show ?case by (simp add: succeeded_def failed_def)
next
  case (Cons r rs)
  show ?case
  proof (cases "Error r")
    case None
    obtain rep' t' where st: "collect_step (rep, t) r = (rep', t')"
      by (cases "collect_step (rep, t) r")
    have f: "FailedRequests rep' = FailedRequests rep"
      using collect_step_failed [of "(rep, t)" r] st None by simp
    have fl: "failed (r # rs) = failed rs"
      by (simp add: failed_Cons None)
    have "collect (r # rs) (rep, t) = collect rs (rep', t')"
      by (simp add: st)
    also have "\<dots> = (fst (collect (succeeded rs) (rep', t'))
        \<lparr>FailedRequests := FailedRequests rep + of_nat (length (failed rs))\<rparr>,
      snd (collect (succeeded rs) (rep', t')))"
      by (subst Cons.IH) (simp only: f)
    also have "collect (succeeded rs) (rep', t') = collect (succeeded (r # rs)) (rep, t)"
      by (simp add: succeeded_Cons None st)
    finally show ?thesis
      using fl by (simp only:)
  next
    case (Some e)
    let ?rep1 = "rep\<lparr>FailedRequests := FailedRequests rep + 1\<rparr>"
    have st: "collect_step (rep, t) r = (?rep1, t)"
      using Some by (simp add: collect_step_error)
    have upd: "collect (succeeded rs) (?rep1, t) =
        (fst (collect (succeeded rs) (rep, t))\<lparr>FailedRequests := FailedRequests rep + 1\<rparr>,
         snd (collect (succeeded rs) (rep, t)))"
      by (rule collect_failed_upd) (rule succeeded_all_ok)
    have "collect (r # rs) (rep, t) = collect rs (?rep1, t)"
      by (simp add: st)
    also have "\<dots> = (fst (collect (succeeded rs) (?rep1, t))
        \<lparr>FailedRequests := FailedRequests ?rep1 + of_nat (length (failed rs))\<rparr>,
      snd (collect (succeeded rs) (?rep1, t)))"
      by (rule Cons.IH)
    also have "\<dots> = (fst (collect (succeeded rs) (rep, t))
        \<lparr>FailedRequests := FailedRequests rep + of_nat (length (failed (r # rs)))\<rparr>,
      snd (collect (succeeded rs) (rep, t)))"
      by (simp add: upd failed_Cons Some add.assoc)
    finally show ?thesis
      by (simp add: succeeded_Cons Some)
  qed
qed

lemma sum_list_word_of_int:
  "sum_list ws = (word_of_int (sum_list (map sint ws)) :: int64)"
  by (induction ws) simp_all

lemma sint_sum_list:
  assumes "- (2 ^ 63) \<le> sum_list (map sint ws)" "sum_list (map sint ws) < 2 ^ 63"
  shows "sint (sum_list ws :: int64) = sum_list (map sint ws)"
  using assms by (subst sum_list_word_of_int) (simp add: sint_of_int_64)

lemma sdiv_pos_bounds:
  fixes a b :: int
  assumes "0 < b"
  shows "(0 \<le> a \<longrightarrow> 0 \<le> a sdiv b \<and> a sdiv b \<le> a) \<and> (a < 0 \<longrightarrow> a \<le> a sdiv b \<and> a sdiv b \<le> 0)"
proof -
  have le: "\<bar>a\<bar> div b \<le> \<bar>a\<bar>" and ge: "0 \<le> \<bar>a\<bar> div b"
    using assms zdiv_mono2 [of "\<bar>a\<bar>" 1 b] by (simp_all add: pos_imp_zdiv_nonneg_iff)
  have sb: "sgn b = 1" "\<bar>b\<bar> = b" using assms by simp_all
  show ?thesis
  proof (intro conjI impI)
    assume "0 \<le> a"
    then have "a sdiv b = \<bar>a\<bar> div b"
      by (cases "a = 0") (simp_all add: signed_divide_int_def sb)
    with le ge \<open>0 \<le> a\<close> show "0 \<le> a sdiv b" "a sdiv b \<le> a" by simp_all
  next
    assume "a < 0"
    then have "a sdiv b = - (\<bar>a\<bar> div b)"
      by (simp add: signed_divide_int_def sb)
    with le ge \<open>a < 0\<close> show "a \<le> a sdiv b" "a sdiv b \<le> 0" by simp_all
  qed
qed

lemma runLoadTest_returns: "\<exists>rep. runLoadTest n el rs = Inr rep"
  by (simp add: runLoadTest_def finish_returns)

lemma collect_init_codes:
  "StatusCodes (fst (collect rs (initReport n, 0))) c =
     (if code_count rs c = 0 then None else Some (of_nat (code_count rs c)))"
  by (simp add: collect_codes initReport_def)

lemma code_count_le: "code_count rs c \<le> length rs"
  unfolding code_count_def succeeded_def
  by (rule order_trans [OF length_filter_le length_filter_le])

lemma length_failed_le: "length (failed rs) \<le> length rs"
  by (simp add: failed_def)

lemma length_succeeded_le: "length (succeeded rs) \<le> length rs"
  by (simp add: succeeded_def)

lemma collect_init_failed:
  assumes "length rs < 2 ^ 63"
  shows "sint (FailedRequests (fst (collect rs (initReport n, 0)))) = int (length (failed rs))"
proof -
  have "length (failed rs) < 2 ^ 63"
    using assms length_failed_le [of rs] by simp
  then show ?thesis
    by (simp add: collect_failed initReport_def sint_of_nat_64)
qed

lemma collect_init_successful:
  assumes "length rs < 2 ^ 63"
  shows "sint (SuccessfulRequests (fst (collect rs (initReport n, 0)))) = int (code_count rs StatusOK)"
proof -
  have "code_count rs StatusOK < 2 ^ 63"
    using assms code_count_le [of rs StatusOK] by simp
  then show ?thesis
    by (simp add: collect_successful initReport_def code_count_def sint_of_nat_64)
qed

lemma collect_init_codes_sint:
  assumes "length rs < 2 ^ 63"
  shows "map_option sint (StatusCodes (fst (collect rs (initReport n, 0))) c) =
       (if code_count rs c = 0 then None else Some (int (code_count rs c)))"
proof -
  have "code_count rs c < 2 ^ 63"
    using assms code_count_le [of rs c] by simp
  then show ?thesis
    by (simp add: collect_init_codes sint_of_nat_64)
qed

lemma collect_init_succeeded:
  "collect rs (initReport n, 0) =
      (fst (collect (succeeded rs) (initReport n, 0))
         \<lparr>FailedRequests := of_nat (length (failed rs))\<rparr>,
       snd (collect (succeeded rs) (initReport n, 0)))"
  using collect_succeeded [of rs "initReport n" 0] by (simp add: initReport_def)

lemma code_count_count_list:
  "code_count rs c = count_list (map StatusCode (succeeded rs)) c"
proof -
  have *: "count_list (map StatusCode xs) c = length (filter (\<lambda>r. StatusCode r = c) xs)" for xs
    by (induction xs) simp_all
  show ?thesis by (simp add: code_count_def *)
qed

lemma sum_code_count:
  "(\<Sum>c \<in> StatusCode ` set (succeeded rs). code_count rs c) = length (succeeded rs)"
  using sum_count_set [of "map StatusCode (succeeded rs)" "StatusCode ` set (succeeded rs)"]
  by (simp add: code_count_count_list)

lemma code_count_eq_0_iff:
  "code_count rs c = 0 \<longleftrightarrow> c \<notin> StatusCode ` set (succeeded rs)"
  by (auto simp add: code_count_def filter_empty_conv)

lemma dom_collect_init:
  "dom (StatusCodes (fst (collect rs (initReport n, 0)))) = StatusCode ` set (succeeded rs)"
  by (auto simp add: dom_def collect_init_codes code_count_eq_0_iff)

lemma sum_other_codes:
  "(\<Sum>c \<in> StatusCode ` set (succeeded rs) - {k}. code_count rs c) + code_count rs k
     = length (succeeded rs)"
proof (cases "k \<in> StatusCode ` set (succeeded rs)")
  case True
  then show ?thesis
    using sum.remove [of "StatusCode ` set (succeeded rs)" k "code_count rs"] sum_code_count [of rs]
    by simp
next
  case False
  then have "code_count rs k = 0" by (simp add: code_count_eq_0_iff)
  with False show ?thesis using sum_code_count [of rs] by simp
qed

lemma run_length_bound:
  assumes "int (length rs) = sint (n :: int64)"
  shows "length rs < 2 ^ 63"
proof -
  have "int (length rs) < 2 ^ 63"
    using assms sint_64_bounds(2) [of n] by simp
  then have "int (length rs) < int (2 ^ 63)" by simp
  then show ?thesis by (simp only: of_nat_less_iff)
qed

lemma run_total_of_nat:
  assumes "int (length rs) = sint (n :: int64)"
  shows "n = of_nat (length rs)"
proof -
  have "n = word_of_int (sint n)" by simp
  also have "\<dots> = word_of_int (int (length rs))" using assms by simp
  finally show ?thesis by simp
qed

lemma remaining_count:
  assumes "int (length rs) = sint n"
  shows "n - FailedRequests (fst (collect rs (initReport n, 0))) = of_nat (length (succeeded rs))"
proof -
  have "n = of_nat (length (succeeded rs) + length (failed rs))"
    using run_total_of_nat [OF assms] by (simp only: length_succeeded_failed)
  then have "n - of_nat (length (failed rs)) = of_nat (length (succeeded rs))"
    by simp
  then show ?thesis
    by (simp add: collect_failed initReport_def)
qed

lemma sint_remaining_count:
  assumes "int (length rs) = sint n"
  shows "sint (n - FailedRequests (fst (collect rs (initReport n, 0)))) = int (length (succeeded rs))"
proof -
  have "length (succeeded rs) < 2 ^ 63"
    using run_length_bound [OF assms] length_succeeded_le [of rs] by simp
  then show ?thesis
    by (simp add: remaining_count [OF assms] sint_of_nat_64)
qed

lemma run_average:
  assumes len: "int (length rs) = sint n"
    and rep: "runLoadTest n el rs = Inr rep"
  shows "AverageTime rep =
     (if succeeded rs = [] then 0
      else word_of_int (sint (sum_list (map Duration (succeeded rs))) sdiv int (length (succeeded rs))))"
proof -
  let ?st = "collect rs (initReport n, 0)"
  have fin: "finish n el ?st = Inr rep"
    using rep by (simp add: runLoadTest_def)
  have a0: "AverageTime (fst ?st) = 0"
    by (simp add: collect_fields initReport_def)
  have t: "snd ?st = sum_list (map Duration (succeeded rs))"
    by (simp add: collect_totalTime)
  have k: "sint (n - FailedRequests (fst ?st)) = int (length (succeeded rs))"
    by (rule sint_remaining_count [OF len])
  show ?thesis
    using finish_average [OF fin] unfolding a0 t k by simp
qed

lemma sum_list_lower:
  fixes ds :: "int list"
  shows "\<forall>d \<in> set ds. m \<le> d \<Longrightarrow> m * int (length ds) \<le> sum_list ds"
  by (induction ds) (simp_all add: algebra_simps)

lemma sum_list_upper:
  fixes ds :: "int list"
  shows "\<forall>d \<in> set ds. d \<le> M \<Longrightarrow> sum_list ds \<le> M * int (length ds)"
  by (induction ds) (simp_all add: algebra_simps)

lemma sdiv_between:
  fixes S k m M :: int
  assumes k: "0 < k" and lo: "m * k \<le> S" and hi: "S \<le> M * k" and M: "0 \<le> M"
  shows "m \<le> S sdiv k \<and> S sdiv k \<le> M"
proof
  have "(m * k) div k \<le> S div k"
    using lo k by (rule zdiv_mono1)
  then have "m \<le> S div k" using k by simp
  also have "S div k \<le> S sdiv k"
    by (simp add: signed_divide_int_eq_divide_int)
  finally show "m \<le> S sdiv k" .
  show "S sdiv k \<le> M"
  proof (cases "0 \<le> S")
    case True
    have "S sdiv k \<le> S div k"
      using True k by (cases "S = 0") (simp_all add: signed_divide_int_eq_divide_int)
    also have "S div k \<le> (M * k) div k"
      using hi k by (rule zdiv_mono1)
    also have "\<dots> = M" using k by simp
    finally show ?thesis .
  next
    case False
    then have "S sdiv k \<le> 0"
      using sdiv_pos_bounds [OF k, of S] by simp
    with M show ?thesis by simp
  qed
qed

lemmas run_defs = runLoadTest_def finish_def collect_step_def initReport_def go_div_def
  map_incr_def Let_def Hour_def StatusOK_def

section \<open>Properties of the goroutines\<close>


lemma filter_update_count:
  "i < length ps \<Longrightarrow>
   length (filter P (ps[i := q])) + (if P (ps ! i) then 1 else 0) =
   length (filter P ps) + (if P q then 1 else 0)"
proof (induction ps arbitrary: i)
  case Nil
  then show ?case by simp
next
  case (Cons p ps)
  then show ?case by (cases i) auto
qed

lemma sent_from_update:
  "i < length ps \<Longrightarrow>
   sent_from w k (ps[i := q]) + (if has_sent (ps ! i) then {#outcome w (k + i)#} else {#}) =
   sent_from w k ps + (if has_sent q then {#outcome w (k + i)#} else {#})"
proof (induction ps arbitrary: i k)
  case Nil
  then show ?case by simp
next
  case (Cons p ps)
  show ?case
  proof (cases i)
    case 0
    then show ?thesis by simp
  next
    case (Suc j)
    then have "j < length ps" using Cons.prems by simp
    from Cons.IH [OF this, of "Suc k"] show ?thesis
      using Suc by (cases "has_sent (ps ! j)"; cases "has_sent q"; simp)
  qed
qed

lemma sent_from_append_new [simp]:
  "sent_from w k (ps @ [W_Acquire]) = sent_from w k ps"
  by (induction ps arbitrary: k) simp_all

lemma carries_from_append_new [simp]:
  "carries_from w k (ps @ [W_Acquire]) = carries_from w k ps"
  by (induction ps arbitrary: k) simp_all

lemma carries_from_update:
  "carries_from w k ps \<Longrightarrow> i < length ps \<Longrightarrow> carries w (k + i) q \<Longrightarrow>
   carries_from w k (ps[i := q])"
proof (induction ps arbitrary: i k)
  case Nil
  then show ?case by simp
next
  case (Cons p ps)
  show ?case
  proof (cases i)
    case 0
    then show ?thesis using Cons.prems by simp
  next
    case (Suc j)
    then show ?thesis
      using Cons.prems Cons.IH [of "Suc k" j] by simp
  qed
qed

lemma carries_from_nth:
  "carries_from w k ps \<Longrightarrow> i < length ps \<Longrightarrow> carries w (k + i) (ps ! i)"
proof (induction ps arbitrary: i k)
  case Nil
  then show ?case by simp
next
  case (Cons p ps)
  show ?case
  proof (cases i)
    case 0
    then show ?thesis using Cons.prems by simp
  next
    case (Suc j)
    then show ?thesis
      using Cons.prems Cons.IH [of "Suc k" j] by simp
  qed
qed

lemma todo_update:
  "i < length ps \<Longrightarrow>
   sum_list (map worker_todo (ps[i := q])) + worker_todo (ps ! i) =
   sum_list (map worker_todo ps) + worker_todo q"
proof (induction ps arbitrary: i)
  case Nil
  then show ?case by simp
next
  case (Cons p ps)
  then show ?case by (cases i) auto
qed

lemma size_sent_from: "size (sent_from w k ps) = length (filter has_sent ps)"
  by (induction ps arbitrary: k) simp_all

lemma sent_from_all:
  "\<forall>p \<in> set ps. has_sent p \<Longrightarrow> sent_from w k ps = mset (map (outcome w) [k..<k + length ps])"
proof (induction ps arbitrary: k)
  case Nil
  then show ?case by simp
next
  case (Cons p ps)
  have "sent_from w (Suc k) ps = mset (map (outcome w) [Suc k..<Suc k + length ps])"
    by (rule Cons.IH) (use Cons.prems in simp)
  moreover have "[k..<k + length (p # ps)] = k # [Suc k..<Suc k + length ps]"
    by (subst upt_rec) simp
  ultimately show ?case
    using Cons.prems by (simp del: mset_upt mset_map)
qed

lemma no_alive_all_sent:
  "length (filter alive ps) = 0 \<Longrightarrow> \<forall>p \<in> set ps. has_sent p \<and> worker_todo p = 0"
proof (induction ps)
  case Nil
  then show ?case by simp
next
  case (Cons p ps)
  then show ?case by (cases p) (simp_all split: if_splits)
qed

lemmas inv_defs = inv_def inv_pc_def inv_wg_def inv_sem_def inv_close_def inv_msgs_def holders_def

lemma inv_init: "inv w (init w)"
  by (simp add: inv_defs init_def)

lemma received_bound:
  assumes "inv w s"
  shows "length (received s) + length (resultChan s) = length (filter has_sent (workers s))"
proof -
  have "size (mset (received s) + mset (resultChan s)) = size (sent_from w 0 (workers s))"
    using assms by (simp add: inv_defs)
  then show ?thesis by (simp add: size_sent_from)
qed

lemma workers_bound:
  assumes "inv w s"
  shows "length (workers s) \<le> nat (sint (w_totalRequests w))"
  using assms by (cases "mainpc s") (simp_all add: inv_defs)

lemma main_step_inv:
  assumes "inv w s" and "main_step w s = Some s'"
  shows "inv w s'"
proof (cases "mainpc s")
  case (M_Loop i)
  then show ?thesis
    using assms
    by (cases "closer s") (auto simp add: inv_defs main_step_def split: if_splits)
next
  case (M_Go i)
  then show ?thesis
    using assms
    by (auto simp add: inv_defs main_step_def split: if_splits)
next
  case M_Range
  then show ?thesis
    using assms
    by (cases "resultChan s") (auto simp add: inv_defs main_step_def split: if_splits)
next
  case M_Return
  then show ?thesis
    using assms by (simp add: main_step_def)
qed

lemma closer_step_inv:
  assumes "inv w s" and "closer_step s = Some s'"
  shows "inv w s'"
proof (cases "closer s")
  case C_NotStarted
  then show ?thesis using assms by (simp add: closer_step_def)
next
  case C_Wait
  then show ?thesis
    using assms
    by (cases "mainpc s") (auto simp add: inv_defs closer_step_def split: if_splits)
next
  case C_Close
  then show ?thesis
    using assms
    by (cases "mainpc s") (auto simp add: inv_defs closer_step_def split: if_splits)
next
  case C_Exited
  then show ?thesis using assms by (simp add: closer_step_def)
qed

lemma worker_update_pc:
  "i < length (workers s) \<Longrightarrow> inv_pc w (s\<lparr>workers := (workers s)[i := q]\<rparr>) = inv_pc w s"
  by (simp add: inv_pc_def)

lemma filter_pos:
  "i < length ps \<Longrightarrow> P (ps ! i) \<Longrightarrow> 0 < length (filter P ps)"
  using nth_mem [of i ps] by (auto simp add: filter_empty_conv)

lemma inv_passed_wait:
  assumes "inv w s" and "passed_wait (closer s)"
  shows "length (filter alive (workers s)) = 0"
  using assms by (auto simp add: inv_defs)

lemma inv_chanClosed:
  assumes "inv w s" and "chanClosed s"
  shows "closer s = C_Exited"
  using assms by (auto simp add: inv_defs)

lemma worker_step_inv:
  assumes I: "inv w s" and st: "worker_step w i s = Some s'"
  shows "inv w s'"
proof -
  have i: "i < length (workers s)"
    using st by (simp add: worker_step_def split: if_splits)
  note al = filter_update_count [OF i, of alive]
  note ho = filter_update_count [OF i, of holds_slot]
  note se = sent_from_update [OF i, of w 0]
  have ca: "carries_from w 0 ((workers s)[i := q])" if "carries w i q" for q
    using I i that carries_from_update [of w 0 "workers s" i q] by (simp add: inv_defs)
  show ?thesis
  proof (cases "workers s ! i")
    case W_Acquire
    then show ?thesis
      using I st i al [of W_Request] ho [of W_Request] se [of W_Request] ca [of W_Request]
      by (auto simp add: inv_defs worker_step_def split: if_splits)
  next
    case W_Request
    then show ?thesis
      using I st i al [of "W_Send (outcome w i)"] ho [of "W_Send (outcome w i)"]
        se [of "W_Send (outcome w i)"] ca [of "W_Send (outcome w i)"]
      by (auto simp add: inv_defs worker_step_def split: if_splits)
  next
    case (W_Send r)
    have r: "r = outcome w i"
      using I i W_Send carries_from_nth [of w 0 "workers s" i] by (simp add: inv_defs)
    have open_chan: "\<not> chanClosed s"
    proof
      assume "chanClosed s"
      then have "closer s = C_Exited" using I by (rule inv_chanClosed [rotated])
      then have "length (filter alive (workers s)) = 0"
        using inv_passed_wait [OF I] by simp
      then have "has_sent (workers s ! i)"
        using no_alive_all_sent [of "workers s"] i by simp
      then show False using W_Send by simp
    qed
    show ?thesis
      using I st i W_Send r open_chan al [of W_Release] ho [of W_Release] se [of W_Release]
        ca [of W_Release]
      by (cases "mainpc s") (auto simp add: inv_defs worker_step_def split: if_splits)
  next
    case W_Release
    then show ?thesis
      using I st i al [of W_Done] ho [of W_Done] se [of W_Done] ca [of W_Done]
      by (auto simp add: inv_defs worker_step_def split: if_splits)
  next
    case W_Done
    have "0 < length (filter alive (workers s))"
      using i W_Done filter_pos [of i "workers s" alive] by simp
    then have pos: "0 < wg s" and nc: "\<not> passed_wait (closer s)"
      using I by (auto simp add: inv_defs)
    show ?thesis
      using I st i W_Done pos nc al [of W_Exited] ho [of W_Exited] se [of W_Exited] ca [of W_Exited]
      by (auto simp add: inv_defs worker_step_def split: if_splits)
  next
    case W_Exited
    then show ?thesis
      using st i by (simp add: worker_step_def)
  qed
qed

lemma step_inv:
  assumes "inv w s" and "step w a s = Some s'"
  shows "inv w s'"
  using assms main_step_inv [of w s s'] closer_step_inv [of w s s'] worker_step_inv [of w s _ s']
  by (cases a) (auto simp add: step_def split: if_splits)

lemma run_inv:
  "inv w s \<Longrightarrow> run w sched s = Some s' \<Longrightarrow> inv w s'"
proof (induction sched arbitrary: s)
  case Nil
  then show ?case by simp
next
  case (Cons a sched)
  then show ?case
    by (auto split: option.splits dest: step_inv)
qed

lemma step_Some_panicked:
  "step w a s = Some s' \<Longrightarrow> panicked s = None"
  by (simp add: step_def split: if_splits)

lemma closer_step_panicked:
  "closer_step s = Some s' \<Longrightarrow> panicked s' = panicked s"
  by (cases "closer s") (auto simp add: closer_step_def split: if_splits)

lemma worker_step_panicked:
  assumes I: "inv w s" and st: "worker_step w i s = Some s'"
  shows "panicked s' = panicked s"
proof -
  have i: "i < length (workers s)"
    using st by (simp add: worker_step_def split: if_splits)
  show ?thesis
  proof (cases "workers s ! i")
    case (W_Send r)
    have "\<not> chanClosed s"
    proof
      assume "chanClosed s"
      then have "closer s = C_Exited" using I by (rule inv_chanClosed [rotated])
      then have "length (filter alive (workers s)) = 0"
        using inv_passed_wait [OF I] by simp
      then have "has_sent (workers s ! i)"
        using no_alive_all_sent [of "workers s"] i by simp
      then show False using W_Send by simp
    qed
    then show ?thesis
      using st i W_Send by (auto simp add: worker_step_def split: if_splits)
  next
    case W_Done
    have "0 < length (filter alive (workers s))"
      using i W_Done filter_pos [of i "workers s" alive] by simp
    then have "0 < wg s" using I by (simp add: inv_defs)
    then show ?thesis
      using st i W_Done by (auto simp add: worker_step_def split: if_splits)
  qed (use st i in \<open>auto simp add: worker_step_def split: if_splits\<close>)
qed

lemma main_step_panicked:
  assumes I: "inv w s" and st: "main_step w s = Some s'"
    and lim: "nat (sint (w_totalRequests w)) < 2 ^ 31"
  shows "panicked s' = panicked s"
proof (cases "mainpc s")
  case (M_Loop i)
  have "wg s \<le> nat (sint (w_totalRequests w))"
    using I M_Loop length_filter_le [of alive "workers s"] by (simp add: inv_defs)
  moreover have "wg s < nat (sint (w_totalRequests w))" if "int i < sint (w_totalRequests w)"
  proof -
    have "wg s \<le> i"
      using I M_Loop length_filter_le [of alive "workers s"] by (simp add: inv_defs)
    with that show ?thesis by linarith
  qed
  ultimately show ?thesis
    using st M_Loop lim by (auto simp add: main_step_def split: if_splits)
next
  case (M_Go i)
  then show ?thesis using st by (auto simp add: main_step_def)
next
  case M_Range
  then show ?thesis
    using st by (cases "resultChan s") (auto simp add: main_step_def split: if_splits)
next
  case M_Return
  then show ?thesis using st by (simp add: main_step_def)
qed

lemma step_panicked:
  assumes "inv w s" and "step w a s = Some s'"
    and "nat (sint (w_totalRequests w)) < 2 ^ 31"
  shows "panicked s' = None"
  using assms main_step_panicked [of w s s'] closer_step_panicked [of s s']
    worker_step_panicked [of w s _ s']
  by (cases a) (auto simp add: step_def split: if_splits)

lemma run_panicked_None:
  "inv w s \<Longrightarrow> panicked s = None \<Longrightarrow> nat (sint (w_totalRequests w)) < 2 ^ 31 \<Longrightarrow>
   run w sched s = Some s' \<Longrightarrow> panicked s' = None"
proof (induction sched arbitrary: s)
  case Nil
  then show ?case by simp
next
  case (Cons a sched)
  from Cons.prems obtain s1 where s1: "step w a s = Some s1" and r: "run w sched s1 = Some s'"
    by (auto split: option.splits)
  have "inv w s1" using Cons.prems(1) s1 by (rule step_inv)
  moreover have "panicked s1 = None" using Cons.prems(1) s1 Cons.prems(3) by (rule step_panicked)
  ultimately show ?case using Cons.IH Cons.prems(3) r by blast
qed

lemma drained:
  assumes I: "inv w s" and c: "passed_wait (closer s)" and e: "resultChan s = []"
  shows "mset (received s) = mset (map (outcome w) [0..<length (workers s)])"
    and "length (received s) = length (workers s)"
    and "sum_list (map worker_todo (workers s)) = 0"
proof -
  have all: "\<forall>p \<in> set (workers s). has_sent p \<and> worker_todo p = 0"
    using inv_passed_wait [OF I c] by (rule no_alive_all_sent)
  have "mset (received s) = sent_from w 0 (workers s)"
    using I e by (simp add: inv_defs)
  also have "\<dots> = mset (map (outcome w) [0..<0 + length (workers s)])"
    using all by (intro sent_from_all) simp
  finally show m: "mset (received s) = mset (map (outcome w) [0..<length (workers s)])"
    by simp
  from arg_cong [OF m, of size] show "length (received s) = length (workers s)"
    by simp
  show "sum_list (map worker_todo (workers s)) = 0"
    using all by simp
qed

lemma main_step_todo:
  assumes I: "inv w s" and st: "main_step w s = Some s'"
    and np: "panicked s = None" "panicked s' = None"
  shows "Suc (todo w s') = todo w s"
proof (cases "mainpc s")
  case (M_Loop i)
  then show ?thesis
    using I st np by (auto simp add: inv_defs todo_def main_step_def split: if_splits)
next
  case (M_Go i)
  then show ?thesis
    using I st by (auto simp add: inv_defs todo_def main_step_def split: if_splits)
next
  case M_Range
  show ?thesis
  proof (cases "resultChan s")
    case Nil
    have cl: "chanClosed s"
      using st M_Range Nil by (simp add: main_step_def split: if_splits)
    then have ex: "closer s = C_Exited" using I by (rule inv_chanClosed [rotated])
    then have pw: "passed_wait (closer s)" by simp
    have "length (workers s) = nat (sint (w_totalRequests w))"
      using I M_Range by (simp add: inv_defs)
    then show ?thesis
      using st M_Range Nil cl ex drained(2,3) [OF I pw Nil]
      by (auto simp add: todo_def main_step_def)
  next
    case (Cons r rest)
    have "length (received s) + length (resultChan s) \<le> length (workers s)"
      using received_bound [OF I] by simp
    then have "length (received s) < nat (sint (w_totalRequests w))"
      using Cons workers_bound [OF I] by simp
    then show ?thesis
      using st M_Range Cons by (auto simp add: todo_def main_step_def)
  qed
next
  case M_Return
  then show ?thesis using st by (simp add: main_step_def)
qed

lemma closer_step_todo:
  assumes "closer_step s = Some s'"
  shows "Suc (todo w s') = todo w s"
  using assms by (cases "closer s") (auto simp add: todo_def closer_step_def split: if_splits)

lemma worker_step_todo:
  assumes I: "inv w s" and st: "worker_step w i s = Some s'"
    and np: "panicked s = None" "panicked s' = None"
  shows "Suc (todo w s') = todo w s"
proof -
  have i: "i < length (workers s)"
    using st by (simp add: worker_step_def split: if_splits)
  note td = todo_update [OF i]
  show ?thesis
  proof (cases "workers s ! i")
    case W_Acquire
    then show ?thesis
      using st i td [of W_Request] by (auto simp add: todo_def worker_step_def split: if_splits)
  next
    case W_Request
    then show ?thesis
      using st i td [of "W_Send (outcome w i)"]
      by (auto simp add: todo_def worker_step_def split: if_splits)
  next
    case (W_Send r)
    then show ?thesis
      using st i np td [of W_Release]
      by (auto simp add: todo_def worker_step_def split: if_splits)
  next
    case W_Release
    then show ?thesis
      using st i td [of W_Done] by (auto simp add: todo_def worker_step_def split: if_splits)
  next
    case W_Done
    then show ?thesis
      using st i np td [of W_Exited]
      by (auto simp add: todo_def worker_step_def split: if_splits)
  next
    case W_Exited
    then show ?thesis using st i by (simp add: worker_step_def)
  qed
qed

lemma step_todo:
  assumes "inv w s" and "step w a s = Some s'" and "panicked s' = None"
  shows "Suc (todo w s') = todo w s"
  using assms main_step_todo [of w s s'] closer_step_todo [of s s' w]
    worker_step_todo [of w s _ s']
  by (cases a) (auto simp add: step_def split: if_splits)

lemma run_todo:
  "inv w s \<Longrightarrow> nat (sint (w_totalRequests w)) < 2 ^ 31 \<Longrightarrow> run w sched s = Some s' \<Longrightarrow>
   length sched + todo w s' = todo w s"
proof (induction sched arbitrary: s)
  case Nil
  then show ?case by simp
next
  case (Cons a sched)
  from Cons.prems obtain s1 where s1: "step w a s = Some s1" and r: "run w sched s1 = Some s'"
    by (auto split: option.splits)
  have "inv w s1" using Cons.prems(1) s1 by (rule step_inv)
  moreover have "panicked s1 = None" using Cons.prems(1) s1 Cons.prems(2) by (rule step_panicked)
  ultimately show ?case
    using Cons.IH [of s1] Cons.prems(2) r step_todo [OF Cons.prems(1) s1] by simp
qed

lemma filter_less:
  "i < length ps \<Longrightarrow> \<not> P (ps ! i) \<Longrightarrow> length (filter P ps) < length ps"
  using nth_mem [of i ps] length_filter_less [of "ps ! i" ps P] by simp

lemma filter_mono_length:
  "(\<And>p. P p \<Longrightarrow> Q p) \<Longrightarrow> length (filter P ps) \<le> length (filter Q ps)"
  by (induction ps) auto

lemma worker_enabled:
  assumes I: "inv w s" and o: "\<not> chanClosed s" and i: "i < length (workers s)"
    and p: "workers s ! i \<noteq> W_Acquire" "workers s ! i \<noteq> W_Exited"
  shows "\<exists>s'. worker_step w i s = Some s'"
proof (cases "workers s ! i")
  case W_Acquire
  then show ?thesis using p by simp
next
  case W_Request
  then show ?thesis using i by (simp add: worker_step_def)
next
  case (W_Send r)
  have "length (filter has_sent (workers s)) < length (workers s)"
    using i W_Send by (intro filter_less [of i]) simp_all
  then have "length (resultChan s) < nat (sint (w_totalRequests w))"
    using received_bound [OF I] workers_bound [OF I] by simp
  then show ?thesis using i o W_Send by (simp add: worker_step_def)
next
  case W_Release
  have "0 < length (filter holds_slot (workers s))"
    using i W_Release by (intro filter_pos [of i]) simp_all
  then have "0 < semaphore s" using I by (simp add: inv_defs)
  then show ?thesis using i W_Release by (simp add: worker_step_def)
next
  case W_Done
  have "0 < length (filter alive (workers s))"
    using i W_Done by (intro filter_pos [of i]) simp_all
  then have "wg s \<noteq> 0" using I by (simp add: inv_defs)
  then show ?thesis using i W_Done by (simp add: worker_step_def)
next
  case W_Exited
  then show ?thesis using p by simp
qed

lemma some_worker_enabled:
  assumes I: "inv w s" and o: "\<not> chanClosed s" and c: "0 < sint (w_concurrency w)"
    and i: "i < length (workers s)" and a: "alive (workers s ! i)"
  shows "\<exists>j s'. worker_step w j s = Some s'"
proof (cases "\<exists>j < length (workers s). holds_slot (workers s ! j)")
  case True
  then obtain j where j: "j < length (workers s)" and h: "holds_slot (workers s ! j)"
    by blast
  from h have "workers s ! j \<noteq> W_Acquire" "workers s ! j \<noteq> W_Exited"
    by auto
  from worker_enabled [OF I o j this] show ?thesis by blast
next
  case False
  then have "filter holds_slot (workers s) = []"
    by (auto simp add: filter_empty_conv in_set_conv_nth)
  then have free: "semaphore s < nat (sint (w_concurrency w))"
    using I c by (simp add: inv_defs)
  show ?thesis
  proof (cases "workers s ! i = W_Acquire")
    case True
    then have "\<exists>s'. worker_step w i s = Some s'"
      using i free by (simp add: worker_step_def)
    then show ?thesis by blast
  next
    case False
    moreover have "workers s ! i \<noteq> W_Exited" using a by auto
    ultimately show ?thesis using worker_enabled [OF I o i] by blast
  qed
qed

lemma progress:
  assumes I: "inv w s" and np: "panicked s = None" and c: "0 < sint (w_concurrency w)"
    and m: "mainpc s \<noteq> M_Return"
  shows "\<exists>a s'. step w a s = Some s'"
proof -
  have main: "\<exists>a s'. step w a s = Some s'" if "\<exists>s'. main_step w s = Some s'"
    using that np by (auto simp add: step_def intro!: exI [of _ Main])
  have clo: "\<exists>a s'. step w a s = Some s'" if "\<exists>s'. closer_step s = Some s'"
    using that np by (auto simp add: step_def intro!: exI [of _ Closer])
  have wor: "\<exists>a s'. step w a s = Some s'" if "\<exists>j s'. worker_step w j s = Some s'"
  proof -
    from that obtain j s' where "worker_step w j s = Some s'" by blast
    then have "step w (Worker j) s = Some s'" using np by (simp add: step_def)
    then show ?thesis by blast
  qed
  show ?thesis
  proof (cases "mainpc s")
    case (M_Loop i)
    then show ?thesis by (intro main) (simp add: main_step_def)
  next
    case (M_Go i)
    then show ?thesis by (intro main) (simp add: main_step_def)
  next
    case M_Return
    then show ?thesis using m by simp
  next
    case M_Range
    show ?thesis
    proof (cases "resultChan s = [] \<and> \<not> chanClosed s")
      case False
      then show ?thesis
        using M_Range by (intro main) (auto simp add: main_step_def split: list.splits)
    next
      case True
      then have o: "\<not> chanClosed s" by simp
      show ?thesis
      proof (cases "closer s")
        case C_NotStarted
        then show ?thesis using I M_Range by (simp add: inv_defs)
      next
        case C_Close
        then show ?thesis by (intro clo) (simp add: closer_step_def)
      next
        case C_Exited
        then show ?thesis using I o by (simp add: inv_defs)
      next
        case C_Wait
        show ?thesis
        proof (cases "wg s = 0")
          case True
          then show ?thesis using C_Wait by (intro clo) (simp add: closer_step_def)
        next
          case False
          then have "filter alive (workers s) \<noteq> []"
            using I M_Range by (simp add: inv_defs)
          then obtain i where "i < length (workers s)" "alive (workers s ! i)"
            by (auto simp add: filter_empty_conv in_set_conv_nth)
          from some_worker_enabled [OF I o c this] show ?thesis by (rule wor)
        qed
      qed
    qed
  qed
qed

lemma run_append:
  "run w (xs @ ys) s = (case run w xs s of None \<Rightarrow> None | Some s1 \<Rightarrow> run w ys s1)"
  by (induction xs arbitrary: s) (simp_all split: option.splits)

lemma completion:
  assumes "inv w s" and "panicked s = None" and c: "0 < sint (w_concurrency w)"
    and lim: "nat (sint (w_totalRequests w)) < 2 ^ 31"
  shows "\<exists>sched s'. run w sched s = Some s' \<and> mainpc s' = M_Return \<and> panicked s' = None"
  using assms(1,2)
proof (induction "todo w s" arbitrary: s rule: less_induct)
  case less
  show ?case
  proof (cases "mainpc s = M_Return")
    case True
    then have "run w [] s = Some s \<and> mainpc s = M_Return \<and> panicked s = None"
      using less.prems by simp
    then show ?thesis by blast
  next
    case False
    from progress [OF less.prems c False] obtain a s1 where st: "step w a s = Some s1"
      by blast
    have I1: "inv w s1" using less.prems(1) st by (rule step_inv)
    have np1: "panicked s1 = None" using less.prems(1) st lim by (rule step_panicked)
    have "todo w s1 < todo w s" using step_todo [OF less.prems(1) st np1] by simp
    from less.hyps [OF this I1 np1] obtain sched s' where
      "run w sched s1 = Some s'" "mainpc s' = M_Return" "panicked s' = None" by blast
    then have "run w (a # sched) s = Some s' \<and> mainpc s' = M_Return \<and> panicked s' = None"
      using st by simp
    then show ?thesis by blast
  qed
qed

lemma run_panicked:
  "panicked s \<noteq> None \<Longrightarrow> run w sched s = Some s' \<Longrightarrow> s' = s"
  by (cases sched) (simp_all add: step_def)

lemma todo_init: "todo w (init w) = 8 * nat (sint (w_totalRequests w)) + 4"
  by (simp add: todo_def init_def)

lemma exec_append: "exec w (xs @ ys) s = exec w ys (exec w xs s)"
  by (induction xs arbitrary: s) simp_all

lemma run_exec: "run w sched s = Some s' \<Longrightarrow> exec w sched s = s'"
  by (induction sched arbitrary: s) (auto split: option.splits)

lemma exec_run: "\<exists>sched'. run w sched' s = Some (exec w sched s)"
proof (induction sched arbitrary: s)
  case Nil
  have "run w [] s = Some (exec w [] s)" by simp
  then show ?case by blast
next
  case (Cons a sched)
  show ?case
  proof (cases "step w a s")
    case None
    then show ?thesis using Cons.IH [of s] by simp
  next
    case (Some s1)
    from Cons.IH [of s1] obtain sched' where "run w sched' s1 = Some (exec w sched s1)"
      by blast
    then have "run w (a # sched') s = Some (exec w (a # sched) s)"
      using Some by simp
    then show ?thesis by blast
  qed
qed

lemma exec_panicked: "panicked s \<noteq> None \<Longrightarrow> exec w sched s = s"
  by (induction sched) (simp_all add: step_def)



lemma init_not_panicked:
  assumes "0 \<le> sint (w_totalRequests w)" and "0 \<le> sint (w_concurrency w)"
    and "nat (sint (w_totalRequests w)) < 2 ^ 31"
    and "sizeof_Result * nat (sint (w_totalRequests w)) \<le> w_maxAlloc w"
  shows "panicked (init w) = None"
proof -
  have "32 * nat (sint (w_totalRequests w)) < (2 :: nat) ^ 64"
    using assms(3) by simp
  then show ?thesis
    using assms by (simp add: init_def makechan_ok_def sizeof_Result_def sizeof_struct_def)
qed

lemma exec_inv: "inv w (exec w sched (init w))"
proof -
  obtain sched' where "run w sched' (init w) = Some (exec w sched (init w))"
    using exec_run by blast
  with inv_init show ?thesis by (rule run_inv)
qed

lemma exec_panicked_None:
  assumes "panicked (init w) = None" and "nat (sint (w_totalRequests w)) < 2 ^ 31"
  shows "panicked (exec w sched (init w)) = None"
proof -
  obtain sched' where "run w sched' (init w) = Some (exec w sched (init w))"
    using exec_run by blast
  with inv_init assms show ?thesis by (rule run_panicked_None)
qed

lemma spawn_all:
  assumes np: "panicked (init w) = None"
  shows "k \<le> nat (sint (w_totalRequests w)) \<Longrightarrow> k < 2 ^ 31 \<Longrightarrow>
    run w (concat (replicate k [Main, Main])) (init w) =
      Some ((init w)\<lparr>mainpc := M_Loop k, workers := replicate k W_Acquire, wg := k\<rparr>)"
proof (induction k)
  case 0
  then show ?case by (simp add: init_def)
next
  case (Suc k)
  let ?s = "(init w)\<lparr>mainpc := M_Loop k, workers := replicate k W_Acquire, wg := k\<rparr>"
  have r: "run w (concat (replicate k [Main, Main])) (init w) = Some ?s"
    using Suc by simp
  have lt: "int k < sint (w_totalRequests w)" using Suc.prems(1) by linarith
  have "replicate (Suc k) [Main, Main] = replicate k [Main, Main] @ [[Main, Main]]"
    by (simp add: replicate_append_same)
  then have "concat (replicate (Suc k) [Main, Main]) =
      concat (replicate k [Main, Main]) @ [Main, Main]"
    by (simp only: concat_append concat.simps append_Nil2)
  moreover have "run w [Main, Main] ?s =
      Some ((init w)\<lparr>mainpc := M_Loop (Suc k), workers := replicate (Suc k) W_Acquire,
        wg := Suc k\<rparr>)"
    using np lt Suc.prems(2)
    by (simp add: step_def main_step_def init_def replicate_append_same)
  ultimately show ?case
    by (simp add: run_append r del: replicate_Suc)
qed

lemmas sys_defs = step_def main_step_def closer_step_def worker_step_def init_def
  outcome_def worker_result_def two_requests_def huge_request_def holders_def
  makechan_ok_def sizeof_Result_def sizeof_struct_def

section \<open>The claims\<close>

text \<open>
  Claim C1, amended.  In every run with valid arguments (\<open>totalRequests > 0\<close>,
  \<open>0 < concurrency \<le> totalRequests\<close>), with \<open>totalRequests\<close> below \<open>2^31\<close> (the
  range of the \<open>WaitGroup\<close> counter) and a buffer of \<open>resultChan\<close>
  (32 bytes for each request) that the runtime grants, under every schedule:
  the program never panics; the collector never holds more than
  \<open>totalRequests\<close> outcomes; when the \<open>range\<close> loop has ended, the outcomes
  received are exactly the outcomes of the \<open>totalRequests\<close> workers, each once,
  so their number is \<open>totalRequests\<close>, and none is left in the channel; until
  then some goroutine can move (no deadlock); every run has at most
  \<open>8 * totalRequests + 4\<close> steps, and it can always be continued to the end of
  the loop.  Each \<open>http.Get\<close> is taken to return.

  Without the two bounds the claim fails.  With \<open>totalRequests = 2^62\<close> and
  \<open>concurrency = 1\<close>, which are valid, \<open>make(chan Result, totalRequests)\<close>
  panics (the buffer would take \<open>2^67\<close> bytes, more than a machine word
  counts), no goroutine is started and nothing is received.
\<close>

theorem all_outcomes_collected:
  assumes t: "0 < sint (w_totalRequests w)"
    and c: "0 < sint (w_concurrency w)"
    and ct: "sint (w_concurrency w) \<le> sint (w_totalRequests w)"
    and lim: "nat (sint (w_totalRequests w)) < 2 ^ 31"
    and mem: "sizeof_Result * nat (sint (w_totalRequests w)) \<le> w_maxAlloc w"
    and r: "run w sched (init w) = Some s"
  shows "panicked s = None \<and>
    length (received s) \<le> nat (sint (w_totalRequests w)) \<and>
    (mainpc s = M_Return \<longrightarrow>
       mset (received s) = mset (map (outcome w) [0..<nat (sint (w_totalRequests w))]) \<and>
       int (length (received s)) = sint (w_totalRequests w) \<and> resultChan s = []) \<and>
    (mainpc s \<noteq> M_Return \<longrightarrow> (\<exists>a s'. step w a s = Some s')) \<and>
    length sched \<le> 8 * nat (sint (w_totalRequests w)) + 4 \<and>
    (\<exists>sched' s'. run w (sched @ sched') (init w) = Some s' \<and> mainpc s' = M_Return)"
proof -
  have I0: "inv w (init w)" by (rule inv_init)
  have np0: "panicked (init w) = None"
    using t c lim mem by (intro init_not_panicked) simp_all
  have I: "inv w s" using I0 r by (rule run_inv)
  have 1: "panicked s = None" using I0 np0 lim r by (rule run_panicked_None)
  have "length (filter has_sent (workers s)) \<le> length (workers s)"
    by simp
  then have 2: "length (received s) \<le> nat (sint (w_totalRequests w))"
    using received_bound [OF I] workers_bound [OF I] by linarith
  have 3: "mset (received s) = mset (map (outcome w) [0..<nat (sint (w_totalRequests w))]) \<and>
       int (length (received s)) = sint (w_totalRequests w) \<and> resultChan s = []"
    if m: "mainpc s = M_Return"
  proof -
    have f: "passed_wait (closer s)" "resultChan s = []"
      "length (workers s) = nat (sint (w_totalRequests w))"
      using I m by (simp_all add: inv_defs)
    show ?thesis
      using drained(1,2) [OF I f(1,2)] f(2,3) t by simp
  qed
  have 4: "\<exists>a s'. step w a s = Some s'" if "mainpc s \<noteq> M_Return"
    using I 1 c that by (rule progress)
  have 5: "length sched \<le> 8 * nat (sint (w_totalRequests w)) + 4"
    using run_todo [OF I0 lim r] by (simp add: todo_init)
  from completion [OF I 1 c lim] obtain sched' s' where
    "run w sched' s = Some s'" "mainpc s' = M_Return" by blast
  then have 6: "\<exists>sched' s'. run w (sched @ sched') (init w) = Some s' \<and> mainpc s' = M_Return"
    using r by (auto simp add: run_append)
  from 1 2 3 4 5 6 show ?thesis by blast
qed

theorem all_outcomes_collected_witness:
  "0 < sint (w_totalRequests two_requests) \<and>
   0 < sint (w_concurrency two_requests) \<and>
   sint (w_concurrency two_requests) \<le> sint (w_totalRequests two_requests) \<and>
   nat (sint (w_totalRequests two_requests)) < 2 ^ 31 \<and>
   sizeof_Result * nat (sint (w_totalRequests two_requests)) \<le> w_maxAlloc two_requests \<and>
   run two_requests
     [Main, Main, Main, Main, Main,
      Worker (Suc 0), Worker (Suc 0), Worker (Suc 0), Worker (Suc 0), Worker (Suc 0),
      Worker 0, Worker 0, Worker 0, Worker 0, Worker 0,
      Main, Main, Closer, Closer, Main] (init two_requests) \<noteq> None \<and>
   mainpc (the (run two_requests
     [Main, Main, Main, Main, Main,
      Worker (Suc 0), Worker (Suc 0), Worker (Suc 0), Worker (Suc 0), Worker (Suc 0),
      Worker 0, Worker 0, Worker 0, Worker 0, Worker 0,
      Main, Main, Closer, Closer, Main] (init two_requests))) = M_Return \<and>
   received (the (run two_requests
     [Main, Main, Main, Main, Main,
      Worker (Suc 0), Worker (Suc 0), Worker (Suc 0), Worker (Suc 0), Worker (Suc 0),
      Worker 0, Worker 0, Worker 0, Worker 0, Worker 0,
      Main, Main, Closer, Closer, Main] (init two_requests))) =
     [\<lparr>StatusCode = 0, Duration = 7, Error = Some ''timeout''\<rparr>,
      \<lparr>StatusCode = 200, Duration = 7, Error = None\<rparr>] \<and>
   mset (received (the (run two_requests
     [Main, Main, Main, Main, Main,
      Worker (Suc 0), Worker (Suc 0), Worker (Suc 0), Worker (Suc 0), Worker (Suc 0),
      Worker 0, Worker 0, Worker 0, Worker 0, Worker 0,
      Main, Main, Closer, Closer, Main] (init two_requests)))) =
     mset (map (outcome two_requests) [0..<nat (sint (w_totalRequests two_requests))])"
  using all_outcomes_collected [of two_requests
     "[Main, Main, Main, Main, Main,
      Worker (Suc 0), Worker (Suc 0), Worker (Suc 0), Worker (Suc 0), Worker (Suc 0),
      Worker 0, Worker 0, Worker 0, Worker 0, Worker 0,
      Main, Main, Closer, Closer, Main]"
     "the (run two_requests
     [Main, Main, Main, Main, Main,
      Worker (Suc 0), Worker (Suc 0), Worker (Suc 0), Worker (Suc 0), Worker (Suc 0),
      Worker 0, Worker 0, Worker 0, Worker 0, Worker 0,
      Main, Main, Closer, Closer, Main] (init two_requests))"]
  by (simp add: sys_defs)

theorem all_outcomes_collected_counterexample:
  "0 < sint (w_totalRequests huge_request) \<and>
   0 < sint (w_concurrency huge_request) \<and>
   sint (w_concurrency huge_request) \<le> sint (w_totalRequests huge_request) \<and>
   run huge_request [] (init huge_request) = Some (init huge_request) \<and>
   panicked (init huge_request) = Some MakeChanSize \<and>
   (\<forall>a. step huge_request a (init huge_request) = None) \<and>
   (\<forall>sched. received (exec huge_request sched (init huge_request)) = []) \<and>
   (\<forall>sched. mainpc (exec huge_request sched (init huge_request)) = M_Loop 0)"
proof -
  have p: "panicked (init huge_request) = Some MakeChanSize"
    by (simp add: sys_defs)
  then have e: "exec huge_request sched (init huge_request) = init huge_request" for sched
    by (intro exec_panicked) simp
  have st: "step huge_request a (init huge_request) = None" for a
    using p by (simp add: step_def)
  have f: "received (init huge_request) = []" "mainpc (init huge_request) = M_Loop 0"
    by (simp_all add: init_def)
  have v: "0 < sint (w_totalRequests huge_request)" "0 < sint (w_concurrency huge_request)"
    "sint (w_concurrency huge_request) \<le> sint (w_totalRequests huge_request)"
    by (simp_all add: huge_request_def)
  show ?thesis
    using p st f v by (simp add: e)
qed

text \<open>
  The bound \<open>2^31\<close> is needed as well: with \<open>2^31\<close> requests, which the runtime
  of the example grants, the schedule in which \<open>main\<close> starts all workers
  before any of them moves makes the last \<open>wg.Add(1)\<close> panic.
\<close>

lemma waitgroup_counter_overflow:
  "nat (sint (w_totalRequests many_requests)) = 2 ^ 31 \<and>
   sizeof_Result * nat (sint (w_totalRequests many_requests)) \<le> w_maxAlloc many_requests \<and>
   run many_requests (concat (replicate 2147483647 [Main, Main]) @ [Main]) (init many_requests)
     \<noteq> None \<and>
   panicked (the (run many_requests (concat (replicate 2147483647 [Main, Main]) @ [Main])
     (init many_requests))) = Some NegativeWaitGroup"
proof -
  have np: "panicked (init many_requests) = None"
    by (simp add: init_def many_requests_def makechan_ok_def sizeof_Result_def sizeof_struct_def)
  have n: "nat (sint (w_totalRequests many_requests)) = 2147483648"
    by (simp add: many_requests_def)
  have r: "run many_requests (concat (replicate 2147483647 [Main, Main])) (init many_requests) =
      Some ((init many_requests)\<lparr>mainpc := M_Loop 2147483647,
        workers := replicate 2147483647 W_Acquire, wg := 2147483647\<rparr>)"
    using spawn_all [OF np, of 2147483647] n by simp
  have lt: "int 2147483647 < sint (w_totalRequests many_requests)"
    by (simp add: many_requests_def)
  have "run many_requests [Main] ((init many_requests)\<lparr>mainpc := M_Loop 2147483647,
        workers := replicate 2147483647 W_Acquire, wg := 2147483647\<rparr>) =
      Some ((init many_requests)\<lparr>mainpc := M_Loop 2147483647,
        workers := replicate 2147483647 W_Acquire, wg := 2147483647,
        panicked := Some NegativeWaitGroup\<rparr>)"
    using np lt by (simp add: step_def main_step_def init_def)
  then have "run many_requests (concat (replicate 2147483647 [Main, Main]) @ [Main])
      (init many_requests) =
      Some ((init many_requests)\<lparr>mainpc := M_Loop 2147483647,
        workers := replicate 2147483647 W_Acquire, wg := 2147483647,
        panicked := Some NegativeWaitGroup\<rparr>)"
    by (simp only: run_append r option.case)
  then show ?thesis
    using n by (simp add: many_requests_def sizeof_Result_def)
qed

text \<open>
  Claim C2.  In every state of every run, the number of workers that hold an
  admission slot, and so the number of those executing the HTTP call, is at
  most \<open>concurrency\<close>; it is the number of values in \<open>semaphore\<close>; and a worker
  that has not acquired a slot cannot move while \<open>concurrency\<close> workers hold
  one: it waits before its timed request begins.
\<close>

theorem admission_bounded:
  assumes r: "run w sched (init w) = Some s"
  shows "holders s \<le> nat (sint (w_concurrency w)) \<and>
    length (filter (\<lambda>p. p = W_Request) (workers s)) \<le> nat (sint (w_concurrency w)) \<and>
    semaphore s = holders s \<and>
    (\<forall>i. i < length (workers s) \<and> workers s ! i = W_Acquire \<and>
         holders s = nat (sint (w_concurrency w)) \<longrightarrow> step w (Worker i) s = None)"
proof -
  have rq: "length (filter (\<lambda>p. p = W_Request) (workers s)) \<le> holders s"
    unfolding holders_def by (rule filter_mono_length) simp
  have I: "inv w s" using inv_init r by (rule run_inv)
  have h: "holders s \<le> nat (sint (w_concurrency w))" "semaphore s = holders s"
    using I by (simp_all add: inv_defs)
  have "step w (Worker i) s = None"
    if "i < length (workers s)" "workers s ! i = W_Acquire"
      "holders s = nat (sint (w_concurrency w))" for i
    using that h by (simp add: step_def worker_step_def)
  with h rq show ?thesis by auto
qed

theorem admission_bounded_witness:
  "run two_requests [Main, Main, Worker 0, Main, Main] (init two_requests) \<noteq> None \<and>
   workers (the (run two_requests [Main, Main, Worker 0, Main, Main] (init two_requests)))
     = [W_Request, W_Acquire] \<and>
   holders (the (run two_requests [Main, Main, Worker 0, Main, Main] (init two_requests)))
     \<le> nat (sint (w_concurrency two_requests)) \<and>
   step two_requests (Worker (Suc 0))
     (the (run two_requests [Main, Main, Worker 0, Main, Main] (init two_requests))) = None"
  using admission_bounded [of two_requests "[Main, Main, Worker 0, Main, Main]"
    "the (run two_requests [Main, Main, Worker 0, Main, Main] (init two_requests))"]
  by (simp add: sys_defs)

text \<open>
  Claim C3.  For every list of outcomes the \<open>range\<close> loop receives (a Go channel
  holds fewer than \<open>2^63\<close> values), the loop leaves a report and a running
  total in which: \<open>FailedRequests\<close> is the number of error outcomes; the error
  outcomes change nothing else (the loop over all outcomes ends in the state of
  the loop over the non-error outcomes alone, but for \<open>FailedRequests\<close>); the
  \<open>StatusCodes\<close> entry of every code is the number of non-error outcomes with
  that code, and absent when there is none; \<open>SuccessfulRequests\<close> is the number
  of non-error outcomes whose code is exactly 200; \<open>MinTime\<close> and \<open>MaxTime\<close>
  are the running minimum (from one hour) and maximum (from zero) of the
  non-error durations, and \<open>totalTime\<close> is their running \<open>int64\<close> sum.
\<close>

theorem collect_reduces_outcomes:
  assumes "length rs < 2 ^ 63"
  shows "sint (FailedRequests (fst (collect rs (initReport n, 0)))) = int (length (failed rs)) \<and>
    collect rs (initReport n, 0) =
      (fst (collect (succeeded rs) (initReport n, 0))
         \<lparr>FailedRequests := of_nat (length (failed rs))\<rparr>,
       snd (collect (succeeded rs) (initReport n, 0))) \<and>
    (\<forall>c. map_option sint (StatusCodes (fst (collect rs (initReport n, 0))) c) =
       (if code_count rs c = 0 then None else Some (int (code_count rs c)))) \<and>
    sint (SuccessfulRequests (fst (collect rs (initReport n, 0)))) = int (code_count rs StatusOK) \<and>
    sint (MinTime (fst (collect rs (initReport n, 0)))) =
      Min (set (sint Hour # map (\<lambda>r. sint (Duration r)) (succeeded rs))) \<and>
    sint (MaxTime (fst (collect rs (initReport n, 0)))) =
      Max (set (0 # map (\<lambda>r. sint (Duration r)) (succeeded rs))) \<and>
    snd (collect rs (initReport n, 0)) = sum_list (map Duration (succeeded rs))"
proof (intro conjI allI)
  show "sint (FailedRequests (fst (collect rs (initReport n, 0)))) = int (length (failed rs))"
    using assms by (rule collect_init_failed)
  show "collect rs (initReport n, 0) =
      (fst (collect (succeeded rs) (initReport n, 0))
         \<lparr>FailedRequests := of_nat (length (failed rs))\<rparr>,
       snd (collect (succeeded rs) (initReport n, 0)))"
    by (rule collect_init_succeeded)
  show "map_option sint (StatusCodes (fst (collect rs (initReport n, 0))) c) =
       (if code_count rs c = 0 then None else Some (int (code_count rs c)))" for c
    using assms by (rule collect_init_codes_sint)
  show "sint (SuccessfulRequests (fst (collect rs (initReport n, 0)))) = int (code_count rs StatusOK)"
    using assms by (rule collect_init_successful)
  show "sint (MinTime (fst (collect rs (initReport n, 0)))) =
      Min (set (sint Hour # map (\<lambda>r. sint (Duration r)) (succeeded rs)))"
    by (simp add: collect_min initReport_def)
  show "sint (MaxTime (fst (collect rs (initReport n, 0)))) =
      Max (set (0 # map (\<lambda>r. sint (Duration r)) (succeeded rs)))"
    by (simp add: collect_max initReport_def)
  show "snd (collect rs (initReport n, 0)) = sum_list (map Duration (succeeded rs))"
    by (simp add: collect_totalTime)
qed

theorem collect_reduces_outcomes_witness:
  "length [\<lparr>StatusCode = 200, Duration = 50000000, Error = None\<rparr>,
           \<lparr>StatusCode = 0, Duration = 3000000, Error = Some ''connection refused''\<rparr>,
           \<lparr>StatusCode = 500, Duration = 70000000, Error = None\<rparr>] < 2 ^ 63 \<and>
   sint (FailedRequests (fst (collect
          [\<lparr>StatusCode = 200, Duration = 50000000, Error = None\<rparr>,
           \<lparr>StatusCode = 0, Duration = 3000000, Error = Some ''connection refused''\<rparr>,
           \<lparr>StatusCode = 500, Duration = 70000000, Error = None\<rparr>] (initReport 3, 0)))) = 1 \<and>
   sint (SuccessfulRequests (fst (collect
          [\<lparr>StatusCode = 200, Duration = 50000000, Error = None\<rparr>,
           \<lparr>StatusCode = 0, Duration = 3000000, Error = Some ''connection refused''\<rparr>,
           \<lparr>StatusCode = 500, Duration = 70000000, Error = None\<rparr>] (initReport 3, 0)))) = 1 \<and>
   snd (collect
          [\<lparr>StatusCode = 200, Duration = 50000000, Error = None\<rparr>,
           \<lparr>StatusCode = 0, Duration = 3000000, Error = Some ''connection refused''\<rparr>,
           \<lparr>StatusCode = 500, Duration = 70000000, Error = None\<rparr>] (initReport 3, 0)) = 120000000"
  using collect_reduces_outcomes [of
          "[\<lparr>StatusCode = 200, Duration = 50000000, Error = None\<rparr>,
           \<lparr>StatusCode = 0, Duration = 3000000, Error = Some ''connection refused''\<rparr>,
           \<lparr>StatusCode = 500, Duration = 70000000, Error = None\<rparr>]" 3]
  by (simp add: failed_def succeeded_def code_count_def run_defs)

text \<open>
  Claim C4.  In a run in which each of the \<open>totalRequests\<close> requests yields
  exactly one outcome, the final report carries \<open>totalRequests\<close> in
  \<open>TotalRequests\<close> and satisfies
  \<open>SuccessfulRequests + (sum of the StatusCodes values of the codes other than 200)
  + FailedRequests = TotalRequests\<close>.
\<close>

theorem report_accounting:
  assumes "int (length rs) = sint n"
  shows "\<exists>rep. runLoadTest n el rs = Inr rep \<and>
     TotalRequests rep = n \<and>
     sint (SuccessfulRequests rep) +
       (\<Sum>c \<in> dom (StatusCodes rep) - {StatusOK}. sint (the (StatusCodes rep c))) +
       sint (FailedRequests rep) = sint (TotalRequests rep) \<and>
     sint (SuccessfulRequests rep) +
       (\<Sum>c \<in> dom (StatusCodes rep) - {StatusOK}. sint (the (StatusCodes rep c))) +
       sint (FailedRequests rep) = int (length rs)"
proof -
  obtain rep where rep: "runLoadTest n el rs = Inr rep"
    using runLoadTest_returns by blast
  let ?st = "collect rs (initReport n, 0)"
  have fin: "finish n el ?st = Inr rep"
    using rep by (simp add: runLoadTest_def)
  have len: "length rs < 2 ^ 63"
    using assms by (rule run_length_bound)
  have succ: "sint (SuccessfulRequests rep) = int (code_count rs StatusOK)"
    using collect_init_successful [OF len, of n] finish_fields(3) [OF fin] by simp
  have fail: "sint (FailedRequests rep) = int (length (failed rs))"
    using collect_init_failed [OF len, of n] finish_fields(4) [OF fin] by simp
  have tot: "TotalRequests rep = n"
    using finish_fields(1) [OF fin] by (simp add: collect_fields initReport_def)
  have codes: "StatusCodes rep = StatusCodes (fst ?st)"
    by (rule finish_fields(2) [OF fin])
  have dom: "dom (StatusCodes rep) = StatusCode ` set (succeeded rs)"
    by (simp add: codes dom_collect_init)
  have val: "sint (the (StatusCodes rep c)) = int (code_count rs c)"
    if "c \<in> StatusCode ` set (succeeded rs) - {StatusOK}" for c
  proof -
    have nz: "code_count rs c \<noteq> 0" using that by (simp add: code_count_eq_0_iff)
    have "code_count rs c < 2 ^ 63" using len code_count_le [of rs c] by simp
    then show ?thesis
      using nz by (simp add: codes collect_init_codes sint_of_nat_64)
  qed
  have other: "(\<Sum>c \<in> dom (StatusCodes rep) - {StatusOK}. sint (the (StatusCodes rep c)))
      = (\<Sum>c \<in> StatusCode ` set (succeeded rs) - {StatusOK}. int (code_count rs c))"
    unfolding dom by (rule sum.cong) (simp_all add: val)
  have so: "(\<Sum>c \<in> StatusCode ` set (succeeded rs) - {StatusOK}. int (code_count rs c)) +
      int (code_count rs StatusOK) = int (length (succeeded rs))"
    using arg_cong [OF sum_other_codes [of rs StatusOK], of int] by simp
  have "sint (SuccessfulRequests rep) +
       (\<Sum>c \<in> dom (StatusCodes rep) - {StatusOK}. sint (the (StatusCodes rep c))) +
       sint (FailedRequests rep) = int (length (succeeded rs)) + int (length (failed rs))"
    using so by (simp add: succ fail other)
  also have "\<dots> = int (length rs)"
    using length_succeeded_failed [of rs] by simp
  finally have "sint (SuccessfulRequests rep) +
       (\<Sum>c \<in> dom (StatusCodes rep) - {StatusOK}. sint (the (StatusCodes rep c))) +
       sint (FailedRequests rep) = sint (TotalRequests rep)"
    using assms tot by simp
  with rep tot assms show ?thesis by auto
qed

theorem report_accounting_witness:
  "int (length [\<lparr>StatusCode = 200, Duration = 50000000, Error = None\<rparr>,
           \<lparr>StatusCode = 0, Duration = 3000000, Error = Some ''connection refused''\<rparr>,
           \<lparr>StatusCode = 500, Duration = 70000000, Error = None\<rparr>]) = sint (3 :: int64) \<and>
   (\<exists>rep. runLoadTest 3 9
          [\<lparr>StatusCode = 200, Duration = 50000000, Error = None\<rparr>,
           \<lparr>StatusCode = 0, Duration = 3000000, Error = Some ''connection refused''\<rparr>,
           \<lparr>StatusCode = 500, Duration = 70000000, Error = None\<rparr>] = Inr rep \<and>
      TotalRequests rep = 3 \<and>
      sint (SuccessfulRequests rep) +
       (\<Sum>c \<in> dom (StatusCodes rep) - {StatusOK}. sint (the (StatusCodes rep c))) +
       sint (FailedRequests rep) = 3)"
  using report_accounting [of
          "[\<lparr>StatusCode = 200, Duration = 50000000, Error = None\<rparr>,
           \<lparr>StatusCode = 0, Duration = 3000000, Error = Some ''connection refused''\<rparr>,
           \<lparr>StatusCode = 500, Duration = 70000000, Error = None\<rparr>]" 3 9]
  by auto

text \<open>
  Claim C5, amended.  In a run with at least one non-error outcome whose exact
  sum of non-error durations fits in an \<open>int64\<close>, \<open>AverageTime\<close> is that sum
  divided (Go's truncating \<open>/\<close>) by the number of non-error outcomes; in
  every run it is the running \<open>int64\<close> total, which wraps around, divided by
  that number.  With no non-error outcome \<open>AverageTime\<close> keeps its zero value
  and the division, whose divisor would be zero, is not evaluated: the run
  returns a report and does not panic.  Without the bound the claim fails:
  for two outcomes of \<open>2^62\<close> nanoseconds each the sum divided by the count is
  \<open>2^62\<close>, and the reported average is \<open>- 2^62\<close>.
\<close>

theorem average_is_sum_over_count:
  assumes "int (length rs) = sint n"
  shows "\<exists>rep. runLoadTest n el rs = Inr rep \<and>
     (succeeded rs \<noteq> [] \<longrightarrow>
        AverageTime rep =
          word_of_int (sint (sum_list (map Duration (succeeded rs))) sdiv int (length (succeeded rs))) \<and>
        (- (2 ^ 63) \<le> (\<Sum>r\<leftarrow>succeeded rs. sint (Duration r)) \<and>
         (\<Sum>r\<leftarrow>succeeded rs. sint (Duration r)) < 2 ^ 63 \<longrightarrow>
           sint (AverageTime rep) =
             (\<Sum>r\<leftarrow>succeeded rs. sint (Duration r)) sdiv int (length (succeeded rs)))) \<and>
     (succeeded rs = [] \<longrightarrow>
        AverageTime rep = 0 \<and>
        go_div (snd (collect rs (initReport n, 0))) (n - FailedRequests rep) = Inl DivideByZero)"
proof -
  obtain rep where rep: "runLoadTest n el rs = Inr rep"
    using runLoadTest_returns by blast
  let ?st = "collect rs (initReport n, 0)"
  let ?S = "\<Sum>r\<leftarrow>succeeded rs. sint (Duration r)"
  let ?k = "int (length (succeeded rs))"
  have fin: "finish n el ?st = Inr rep"
    using rep by (simp add: runLoadTest_def)
  have avg: "AverageTime rep =
     (if succeeded rs = [] then 0
      else word_of_int (sint (sum_list (map Duration (succeeded rs))) sdiv ?k))"
    using assms rep by (rule run_average)
  have exact: "sint (AverageTime rep) = ?S sdiv ?k"
    if ne: "succeeded rs \<noteq> []" and lo: "- (2 ^ 63) \<le> ?S" and hi: "?S < 2 ^ 63"
  proof -
    have s: "sint (sum_list (map Duration (succeeded rs))) = ?S"
      using sint_sum_list [of "map Duration (succeeded rs)"] lo hi by (simp add: comp_def)
    have k: "0 < ?k" using ne by simp
    have "- (2 ^ 63) \<le> ?S sdiv ?k \<and> ?S sdiv ?k < 2 ^ 63"
      using sdiv_pos_bounds [OF k, of ?S] lo hi by (cases "0 \<le> ?S") auto
    then show ?thesis
      using ne by (simp add: avg s sint_of_int_64)
  qed
  have zero: "go_div (snd ?st) (n - FailedRequests rep) = Inl DivideByZero"
    if "succeeded rs = []"
    using that remaining_count [OF assms] finish_fields(4) [OF fin]
    by (simp add: go_div_def)
  show ?thesis
    using rep avg exact zero by auto
qed

theorem average_is_sum_over_count_witness:
  "int (length [\<lparr>StatusCode = 200, Duration = 50000000, Error = None\<rparr>,
           \<lparr>StatusCode = 0, Duration = 3000000, Error = Some ''connection refused''\<rparr>,
           \<lparr>StatusCode = 500, Duration = 70000001, Error = None\<rparr>]) = sint (3 :: int64) \<and>
   (\<exists>rep. runLoadTest 3 9
          [\<lparr>StatusCode = 200, Duration = 50000000, Error = None\<rparr>,
           \<lparr>StatusCode = 0, Duration = 3000000, Error = Some ''connection refused''\<rparr>,
           \<lparr>StatusCode = 500, Duration = 70000001, Error = None\<rparr>] = Inr rep \<and>
      sint (AverageTime rep) = 60000000) \<and>
   int (length [\<lparr>StatusCode = 0, Duration = 3000000, Error = Some ''connection refused''\<rparr>])
      = sint (1 :: int64) \<and>
   (\<exists>rep. runLoadTest 1 9
          [\<lparr>StatusCode = 0, Duration = 3000000, Error = Some ''connection refused''\<rparr>] = Inr rep \<and>
      AverageTime rep = 0)"
  using average_is_sum_over_count [of
          "[\<lparr>StatusCode = 200, Duration = 50000000, Error = None\<rparr>,
           \<lparr>StatusCode = 0, Duration = 3000000, Error = Some ''connection refused''\<rparr>,
           \<lparr>StatusCode = 500, Duration = 70000001, Error = None\<rparr>]" 3 9]
     average_is_sum_over_count [of
          "[\<lparr>StatusCode = 0, Duration = 3000000, Error = Some ''connection refused''\<rparr>]" 1 9]
  by (auto simp add: succeeded_def signed_divide_int_def)

theorem average_is_sum_over_count_counterexample:
  "int (length
      [\<lparr>StatusCode = 200, Duration = 4611686018427387904, Error = None\<rparr>,
       \<lparr>StatusCode = 200, Duration = 4611686018427387904, Error = None\<rparr>]) = sint (2 :: int64) \<and>
   succeeded
      [\<lparr>StatusCode = 200, Duration = 4611686018427387904, Error = None\<rparr>,
       \<lparr>StatusCode = 200, Duration = 4611686018427387904, Error = None\<rparr>] \<noteq> [] \<and>
   \<not> isl (runLoadTest 2 0
      [\<lparr>StatusCode = 200, Duration = 4611686018427387904, Error = None\<rparr>,
       \<lparr>StatusCode = 200, Duration = 4611686018427387904, Error = None\<rparr>]) \<and>
   sint (AverageTime (projr (runLoadTest 2 0
      [\<lparr>StatusCode = 200, Duration = 4611686018427387904, Error = None\<rparr>,
       \<lparr>StatusCode = 200, Duration = 4611686018427387904, Error = None\<rparr>])))
     = - 4611686018427387904 \<and>
   (\<Sum>r\<leftarrow>succeeded
      [\<lparr>StatusCode = 200, Duration = 4611686018427387904, Error = None\<rparr>,
       \<lparr>StatusCode = 200, Duration = 4611686018427387904, Error = None\<rparr>]. sint (Duration r))
     sdiv int (length (succeeded
      [\<lparr>StatusCode = 200, Duration = 4611686018427387904, Error = None\<rparr>,
       \<lparr>StatusCode = 200, Duration = 4611686018427387904, Error = None\<rparr>]))
     = 4611686018427387904"
  by (simp add: run_defs succeeded_def signed_divide_int_def)

text \<open>
  Claim C6.  In a run in which \<open>FailedRequests\<close> equals \<open>totalRequests\<close>, the run
  returns a report (no division by zero), \<open>AverageTime\<close>, \<open>MinTime\<close> and
  \<open>MaxTime\<close> keep the values the report was initialised with (zero, the
  one-hour sentinel, zero), and \<open>StatusCodes\<close> is empty.
\<close>

theorem all_failed_defaults:
  assumes len: "int (length rs) = sint n"
  shows "\<exists>rep. runLoadTest n el rs = Inr rep \<and>
     (FailedRequests rep = n \<longrightarrow>
        AverageTime rep = 0 \<and> MinTime rep = Hour \<and> MaxTime rep = 0 \<and>
        StatusCodes rep = Map.empty)"
proof -
  obtain rep where rep: "runLoadTest n el rs = Inr rep"
    using runLoadTest_returns by blast
  let ?st = "collect rs (initReport n, 0)"
  have fin: "finish n el ?st = Inr rep"
    using rep by (simp add: runLoadTest_def)
  have "AverageTime rep = 0 \<and> MinTime rep = Hour \<and> MaxTime rep = 0 \<and>
        StatusCodes rep = Map.empty" if all: "FailedRequests rep = n"
  proof -
    have "sint (n - FailedRequests (fst ?st)) = 0"
      using all finish_fields(4) [OF fin] by simp
    then have none: "succeeded rs = []"
      using sint_remaining_count [OF len] by simp
    have st: "?st = ((initReport n)\<lparr>FailedRequests := of_nat (length (failed rs))\<rparr>, 0)"
      using collect_init_succeeded [of rs n] by (simp add: none)
    have f: "StatusCodes (fst ?st) = Map.empty" "MinTime (fst ?st) = Hour" "MaxTime (fst ?st) = 0"
      unfolding st by (simp_all add: initReport_def)
    show ?thesis
      using finish_fields(2,5,6) [OF fin] run_average [OF len rep]
      unfolding f by (simp add: none)
  qed
  with rep show ?thesis by blast
qed

theorem all_failed_defaults_witness:
  "int (length [\<lparr>StatusCode = 0, Duration = 3000000, Error = Some ''connection refused''\<rparr>,
                \<lparr>StatusCode = 0, Duration = 4000000, Error = Some ''timeout''\<rparr>])
      = sint (2 :: int64) \<and>
   (\<exists>rep. runLoadTest 2 9
          [\<lparr>StatusCode = 0, Duration = 3000000, Error = Some ''connection refused''\<rparr>,
           \<lparr>StatusCode = 0, Duration = 4000000, Error = Some ''timeout''\<rparr>] = Inr rep \<and>
      FailedRequests rep = 2 \<and>
      AverageTime rep = 0 \<and> MinTime rep = Hour \<and> MaxTime rep = 0 \<and>
      StatusCodes rep = Map.empty)"
  using all_failed_defaults [of
          "[\<lparr>StatusCode = 0, Duration = 3000000, Error = Some ''connection refused''\<rparr>,
           \<lparr>StatusCode = 0, Duration = 4000000, Error = Some ''timeout''\<rparr>]" 2 9]
  by (auto simp add: run_defs)

text \<open>
  Claim C7, amended.  In a run with at least one non-error outcome whose exact
  sum of non-error durations fits in an \<open>int64\<close> (the running total does not
  wrap around), \<open>MinTime \<le> AverageTime \<le> MaxTime\<close>.  Without the bound the
  claim fails: two outcomes of \<open>2^62\<close> nanoseconds each make the running total
  wrap to \<open>- 2^63\<close>, so the average is \<open>- 2^62\<close>, below \<open>MinTime\<close> (one hour).
\<close>

theorem average_between_min_and_max:
  assumes len: "int (length rs) = sint n"
    and ne: "succeeded rs \<noteq> []"
    and lo: "- (2 ^ 63) \<le> (\<Sum>r\<leftarrow>succeeded rs. sint (Duration r))"
    and hi: "(\<Sum>r\<leftarrow>succeeded rs. sint (Duration r)) < 2 ^ 63"
  shows "\<exists>rep. runLoadTest n el rs = Inr rep \<and>
     sint (MinTime rep) \<le> sint (AverageTime rep) \<and>
     sint (AverageTime rep) \<le> sint (MaxTime rep)"
proof -
  obtain rep where rep: "runLoadTest n el rs = Inr rep"
    using runLoadTest_returns by blast
  let ?st = "collect rs (initReport n, 0)"
  let ?ds = "map (\<lambda>r. sint (Duration r)) (succeeded rs)"
  let ?S = "sum_list ?ds"
  let ?k = "int (length ?ds)"
  have fin: "finish n el ?st = Inr rep"
    using rep by (simp add: runLoadTest_def)
  have mn: "sint (MinTime rep) = Min (set (sint Hour # ?ds))"
    using finish_fields(5) [OF fin] by (simp add: collect_min initReport_def)
  have mx: "sint (MaxTime rep) = Max (set (0 # ?ds))"
    using finish_fields(6) [OF fin] by (simp add: collect_max initReport_def)
  have k: "0 < ?k" using ne by simp
  have s: "sint (sum_list (map Duration (succeeded rs))) = ?S"
    using sint_sum_list [of "map Duration (succeeded rs)"] lo hi by (simp add: comp_def)
  have "- (2 ^ 63) \<le> ?S sdiv ?k \<and> ?S sdiv ?k < 2 ^ 63"
    using sdiv_pos_bounds [OF k, of ?S] lo hi by (cases "0 \<le> ?S") auto
  then have avg: "sint (AverageTime rep) = ?S sdiv ?k"
    using ne by (simp add: run_average [OF len rep] s sint_of_int_64)
  have "\<forall>d \<in> set ?ds. sint (MinTime rep) \<le> d"
    unfolding mn by (intro ballI Min_le) simp_all
  then have l: "sint (MinTime rep) * ?k \<le> ?S"
    by (rule sum_list_lower)
  have "\<forall>d \<in> set ?ds. d \<le> sint (MaxTime rep)"
    unfolding mx by (intro ballI Max_ge) simp_all
  then have u: "?S \<le> sint (MaxTime rep) * ?k"
    by (rule sum_list_upper)
  have M: "0 \<le> sint (MaxTime rep)"
    unfolding mx by (rule Max_ge) simp_all
  show ?thesis
    using rep sdiv_between [OF k l u M] by (simp add: avg)
qed

theorem average_between_min_and_max_witness:
  "int (length [\<lparr>StatusCode = 200, Duration = 50000000, Error = None\<rparr>,
           \<lparr>StatusCode = 0, Duration = 3000000, Error = Some ''connection refused''\<rparr>,
           \<lparr>StatusCode = 500, Duration = 70000001, Error = None\<rparr>]) = sint (3 :: int64) \<and>
   succeeded [\<lparr>StatusCode = 200, Duration = 50000000, Error = None\<rparr>,
           \<lparr>StatusCode = 0, Duration = 3000000, Error = Some ''connection refused''\<rparr>,
           \<lparr>StatusCode = 500, Duration = 70000001, Error = None\<rparr>] \<noteq> [] \<and>
   (\<exists>rep. runLoadTest 3 9
          [\<lparr>StatusCode = 200, Duration = 50000000, Error = None\<rparr>,
           \<lparr>StatusCode = 0, Duration = 3000000, Error = Some ''connection refused''\<rparr>,
           \<lparr>StatusCode = 500, Duration = 70000001, Error = None\<rparr>] = Inr rep \<and>
     sint (MinTime rep) \<le> sint (AverageTime rep) \<and>
     sint (AverageTime rep) \<le> sint (MaxTime rep))"
  using average_between_min_and_max [of
          "[\<lparr>StatusCode = 200, Duration = 50000000, Error = None\<rparr>,
           \<lparr>StatusCode = 0, Duration = 3000000, Error = Some ''connection refused''\<rparr>,
           \<lparr>StatusCode = 500, Duration = 70000001, Error = None\<rparr>]" 3 9]
  by (simp add: succeeded_def)

theorem average_between_min_and_max_counterexample:
  "\<not> isl (runLoadTest 2 0
      [\<lparr>StatusCode = 200, Duration = 4611686018427387904, Error = None\<rparr>,
       \<lparr>StatusCode = 200, Duration = 4611686018427387904, Error = None\<rparr>]) \<and>
   succeeded
      [\<lparr>StatusCode = 200, Duration = 4611686018427387904, Error = None\<rparr>,
       \<lparr>StatusCode = 200, Duration = 4611686018427387904, Error = None\<rparr>] \<noteq> [] \<and>
   \<not> sint (MinTime (projr (runLoadTest 2 0
      [\<lparr>StatusCode = 200, Duration = 4611686018427387904, Error = None\<rparr>,
       \<lparr>StatusCode = 200, Duration = 4611686018427387904, Error = None\<rparr>])))
     \<le> sint (AverageTime (projr (runLoadTest 2 0
      [\<lparr>StatusCode = 200, Duration = 4611686018427387904, Error = None\<rparr>,
       \<lparr>StatusCode = 200, Duration = 4611686018427387904, Error = None\<rparr>])))"
  by (simp add: run_defs succeeded_def)

text \<open>
  The wrap-around does not need durations of centuries: a million requests
  of three hours each (\<open>http.Get\<close> has no timeout) already exceed \<open>2^63\<close>
  nanoseconds in total, and the reported average is negative.
\<close>

lemma million_slow_requests_wrap:
  "\<not> isl (runLoadTest 1000000 el
      (replicate 1000000 \<lparr>StatusCode = 200, Duration = 10800000000000, Error = None\<rparr>)) \<and>
   sint (AverageTime (projr (runLoadTest 1000000 el
      (replicate 1000000 \<lparr>StatusCode = 200, Duration = 10800000000000, Error = None\<rparr>))))
     = - 7646744073709 \<and>
   sint (MinTime (projr (runLoadTest 1000000 el
      (replicate 1000000 \<lparr>StatusCode = 200, Duration = 10800000000000, Error = None\<rparr>))))
     = 3600000000000"
proof -
  let ?r = "\<lparr>StatusCode = 200, Duration = 10800000000000, Error = None\<rparr>"
  let ?rs = "replicate 1000000 ?r"
  obtain rep where rep: "runLoadTest 1000000 el ?rs = Inr rep"
    using runLoadTest_returns by blast
  have len: "int (length ?rs) = sint (1000000 :: int64)" by simp
  have ok: "succeeded ?rs = ?rs" by (simp add: succeeded_def)
  have total: "sum_list (replicate 1000000 (10800000000000 :: int64)) = 10800000000000000000"
    by (simp add: sum_list_replicate)
  have "AverageTime rep = word_of_int (sint (10800000000000000000 :: int64) sdiv 1000000)"
    using run_average [OF len rep] by (simp add: ok total)
  then have avg: "sint (AverageTime rep) = - 7646744073709"
    by (simp add: signed_divide_int_def)
  have fin: "finish 1000000 el (collect ?rs (initReport 1000000, 0)) = Inr rep"
    using rep by (simp add: runLoadTest_def)
  have "sint (MinTime rep) = Min (set (sint Hour # map (\<lambda>r. sint (Duration r)) (succeeded ?rs)))"
    using finish_fields(5) [OF fin] by (simp add: collect_min initReport_def)
  then have mn: "sint (MinTime rep) = 3600000000000"
    by (simp add: ok Hour_def)
  show ?thesis using rep avg mn by simp
qed



text \<open>
  Claim C9, amended.  \<open>main\<close> exits with status 1 before any request is
  dispatched when the URL is empty, \<open>requests \<le> 0\<close>, \<open>concurrency \<le> 0\<close> or
  \<open>concurrency > requests\<close>.  Otherwise, when \<open>requests\<close> is below \<open>2^31\<close> and
  the runtime grants the buffer of \<open>resultChan\<close>, the program never panics: under
  every schedule it is still running or has returned, with exit status 0 and
  the report that the collector makes of the results received, whatever the
  outcomes of the requests are, and every schedule can be continued until it
  returns.  Otherwise, when \<open>make(chan Result, requests)\<close> is refused, the
  program panics (exit status 2) before any request is dispatched: so it does
  for \<open>requests = 2^62\<close> and \<open>concurrency = 1\<close>, where the claim as it stands
  promises exit status 0.
\<close>

theorem main_exit_status:
  "(url = [] \<or> sint (w_totalRequests w) \<le> 0 \<or> sint (w_concurrency w) \<le> 0 \<or>
      sint (w_concurrency w) > sint (w_totalRequests w) \<longrightarrow>
      exit_status (main url w el sched) = Some 1 \<and> dispatched url w sched = 0) \<and>
   (\<not> (url = [] \<or> sint (w_totalRequests w) \<le> 0 \<or> sint (w_concurrency w) \<le> 0 \<or>
      sint (w_concurrency w) > sint (w_totalRequests w)) \<and>
    nat (sint (w_totalRequests w)) < 2 ^ 31 \<and>
    sizeof_Result * nat (sint (w_totalRequests w)) \<le> w_maxAlloc w \<longrightarrow>
      (mainpc (exec w sched (init w)) = M_Return \<longrightarrow>
         exit_status (main url w el sched) = Some 0 \<and>
         (\<exists>rep. runLoadTest (w_totalRequests w) el (received (exec w sched (init w))) = Inr rep \<and>
            main url w el sched = Returned rep) \<and>
         dispatched url w sched = nat (sint (w_totalRequests w))) \<and>
      (mainpc (exec w sched (init w)) \<noteq> M_Return \<longrightarrow> main url w el sched = Running) \<and>
      (\<exists>sched'. exit_status (main url w el (sched @ sched')) = Some 0)) \<and>
   (\<not> (url = [] \<or> sint (w_totalRequests w) \<le> 0 \<or> sint (w_concurrency w) \<le> 0 \<or>
      sint (w_concurrency w) > sint (w_totalRequests w)) \<and>
    \<not> makechan_ok (w_maxAlloc w) sizeof_Result (w_totalRequests w) \<longrightarrow>
      main url w el sched = Panicked MakeChanSize \<and>
      exit_status (main url w el sched) = Some 2 \<and> dispatched url w sched = 0)"
proof (intro conjI impI)
  assume "url = [] \<or> sint (w_totalRequests w) \<le> 0 \<or> sint (w_concurrency w) \<le> 0 \<or>
      sint (w_concurrency w) > sint (w_totalRequests w)"
  then show "exit_status (main url w el sched) = Some 1" "dispatched url w sched = 0"
    by (auto simp add: main_def dispatched_def)
next
  assume a: "\<not> (url = [] \<or> sint (w_totalRequests w) \<le> 0 \<or> sint (w_concurrency w) \<le> 0 \<or>
      sint (w_concurrency w) > sint (w_totalRequests w)) \<and>
    \<not> makechan_ok (w_maxAlloc w) sizeof_Result (w_totalRequests w)"
  then have p: "panicked (init w) = Some MakeChanSize" by (simp add: init_def)
  then have e: "exec w xs (init w) = init w" for xs
    by (intro exec_panicked) simp
  have m: "main url w x sched = Panicked MakeChanSize" for x
    using a p by (simp add: main_def runLoadTest_under_def e)
  show "main url w el sched = Panicked MakeChanSize" by (rule m)
  show "exit_status (main url w el sched) = Some 2" by (simp add: m)
  have "workers (init w) = []" by (simp add: init_def)
  then show "dispatched url w sched = 0" by (simp add: dispatched_def m e)
next
  assume a: "\<not> (url = [] \<or> sint (w_totalRequests w) \<le> 0 \<or> sint (w_concurrency w) \<le> 0 \<or>
      sint (w_concurrency w) > sint (w_totalRequests w)) \<and>
    nat (sint (w_totalRequests w)) < 2 ^ 31 \<and>
    sizeof_Result * nat (sint (w_totalRequests w)) \<le> w_maxAlloc w"
  then have lim: "nat (sint (w_totalRequests w)) < 2 ^ 31"
    and c: "0 < sint (w_concurrency w)" by simp_all
  have np0: "panicked (init w) = None"
    using a by (intro init_not_panicked) simp_all
  have np: "panicked (exec w xs (init w)) = None" for xs
    using np0 lim by (rule exec_panicked_None)
  have I: "inv w (exec w xs (init w))" for xs by (rule exec_inv)
  have m: "main url w x xs = runLoadTest_under w x xs" for x xs
    using a by (simp add: main_def)
  have ret: "exit_status (main url w x xs) = Some 0 \<and>
      (\<exists>rep. runLoadTest (w_totalRequests w) x (received (exec w xs (init w))) = Inr rep \<and>
         main url w x xs = Returned rep) \<and>
      dispatched url w xs = nat (sint (w_totalRequests w))"
    if r: "mainpc (exec w xs (init w)) = M_Return" for x xs
  proof -
    obtain rep where rep: "runLoadTest (w_totalRequests w) x (received (exec w xs (init w))) = Inr rep"
      using runLoadTest_returns by blast
    have mm: "main url w y xs = Returned (projr (runLoadTest (w_totalRequests w) y
        (received (exec w xs (init w)))))" for y
      using runLoadTest_returns [of "w_totalRequests w" y "received (exec w xs (init w))"]
      by (auto simp add: m runLoadTest_under_def np r)
    have "length (workers (exec w xs (init w))) = nat (sint (w_totalRequests w))"
      using I [of xs] r by (simp add: inv_defs)
    then show ?thesis
      using rep mm by (simp add: dispatched_def)
  qed
  {
    assume "mainpc (exec w sched (init w)) = M_Return"
    from ret [OF this, of el]
    show "exit_status (main url w el sched) = Some 0"
      "\<exists>rep. runLoadTest (w_totalRequests w) el (received (exec w sched (init w))) = Inr rep \<and>
         main url w el sched = Returned rep"
      "dispatched url w sched = nat (sint (w_totalRequests w))"
      by blast+
  }
  {
    assume "mainpc (exec w sched (init w)) \<noteq> M_Return"
    then show "main url w el sched = Running"
      by (simp add: m runLoadTest_under_def np)
  }
  from completion [OF I np c lim, of sched] obtain sched' s' where
    r: "run w sched' (exec w sched (init w)) = Some s'" and f: "mainpc s' = M_Return"
    by blast
  have "exec w (sched @ sched') (init w) = s'"
    using run_exec [OF r] by (simp add: exec_append)
  then have "mainpc (exec w (sched @ sched') (init w)) = M_Return" using f by simp
  from ret [OF this, of el]
  show "\<exists>sched'. exit_status (main url w el (sched @ sched')) = Some 0" by blast
qed

theorem main_exit_status_witness:
  "sint (w_concurrency (two_requests\<lparr>w_concurrency := 5\<rparr>)) >
     sint (w_totalRequests (two_requests\<lparr>w_concurrency := 5\<rparr>)) \<and>
   exit_status (main ''http://localhost'' (two_requests\<lparr>w_concurrency := 5\<rparr>) 9 [Main]) = Some 1 \<and>
   dispatched ''http://localhost'' (two_requests\<lparr>w_concurrency := 5\<rparr>) [Main] = 0 \<and>
   \<not> (''http://localhost'' = [] \<or> sint (w_totalRequests two_requests) \<le> 0 \<or>
      sint (w_concurrency two_requests) \<le> 0 \<or>
      sint (w_concurrency two_requests) > sint (w_totalRequests two_requests)) \<and>
   nat (sint (w_totalRequests two_requests)) < 2 ^ 31 \<and>
   sizeof_Result * nat (sint (w_totalRequests two_requests)) \<le> w_maxAlloc two_requests \<and>
   mainpc (exec two_requests
     [Main, Main, Main, Main, Main,
      Worker (Suc 0), Worker (Suc 0), Worker (Suc 0), Worker (Suc 0), Worker (Suc 0),
      Worker 0, Worker 0, Worker 0, Worker 0, Worker 0,
      Main, Main, Closer, Closer, Main] (init two_requests)) = M_Return \<and>
   exit_status (main ''http://localhost'' two_requests 9
     [Main, Main, Main, Main, Main,
      Worker (Suc 0), Worker (Suc 0), Worker (Suc 0), Worker (Suc 0), Worker (Suc 0),
      Worker 0, Worker 0, Worker 0, Worker 0, Worker 0,
      Main, Main, Closer, Closer, Main]) = Some 0 \<and>
   dispatched ''http://localhost'' two_requests
     [Main, Main, Main, Main, Main,
      Worker (Suc 0), Worker (Suc 0), Worker (Suc 0), Worker (Suc 0), Worker (Suc 0),
      Worker 0, Worker 0, Worker 0, Worker 0, Worker 0,
      Main, Main, Closer, Closer, Main] = 2"
  using main_exit_status [of "''http://localhost''" "two_requests\<lparr>w_concurrency := 5\<rparr>" 9 "[Main]"]
    main_exit_status [of "''http://localhost''" two_requests 9
     "[Main, Main, Main, Main, Main,
      Worker (Suc 0), Worker (Suc 0), Worker (Suc 0), Worker (Suc 0), Worker (Suc 0),
      Worker 0, Worker 0, Worker 0, Worker 0, Worker 0,
      Main, Main, Closer, Closer, Main]"]
  by (simp add: sys_defs)

theorem main_exit_status_counterexample:
  "\<not> (''http://localhost'' = [] \<or> sint (w_totalRequests huge_request) \<le> 0 \<or>
      sint (w_concurrency huge_request) \<le> 0 \<or>
      sint (w_concurrency huge_request) > sint (w_totalRequests huge_request)) \<and>
   (\<forall>sched. main ''http://localhost'' huge_request 0 sched = Panicked MakeChanSize) \<and>
   (\<forall>sched. exit_status (main ''http://localhost'' huge_request 0 sched) = Some 2)"
proof -
  have p: "panicked (init huge_request) = Some MakeChanSize"
    by (simp add: sys_defs)
  then have e: "exec huge_request sched (init huge_request) = init huge_request" for sched
    by (intro exec_panicked) simp
  have v: "\<not> (''http://localhost'' = [] \<or> sint (w_totalRequests huge_request) \<le> 0 \<or>
      sint (w_concurrency huge_request) \<le> 0 \<or>
      sint (w_concurrency huge_request) > sint (w_totalRequests huge_request))"
    by (simp add: huge_request_def)
  have "main ''http://localhost'' huge_request 0 sched = Panicked MakeChanSize" for sched
    using v p by (simp add: main_def runLoadTest_under_def e)
  then show ?thesis using v by simp
qed

text \<open>
  Claim C10.  The reported \<open>MinTime\<close> is the minimum of one hour and the
  non-error durations.  So it is one hour when every non-error duration is
  longer than one hour, and one hour when there is no non-error outcome.
\<close>

theorem min_duration_capped_at_hour:
  "\<exists>rep. runLoadTest n el rs = Inr rep \<and>
     sint (MinTime rep) = Min (set (sint Hour # map (\<lambda>r. sint (Duration r)) (succeeded rs))) \<and>
     ((\<forall>r \<in> set (succeeded rs). sint Hour < sint (Duration r)) \<longrightarrow> MinTime rep = Hour) \<and>
     (succeeded rs = [] \<longrightarrow> MinTime rep = Hour)"
proof -
  obtain rep where rep: "runLoadTest n el rs = Inr rep"
    using runLoadTest_returns by blast
  let ?ds = "map (\<lambda>r. sint (Duration r)) (succeeded rs)"
  have m: "sint (MinTime rep) = Min (set (sint Hour # ?ds))"
    using rep finish_fields(5) [of n el "collect rs (initReport n, 0)" rep]
    by (simp add: runLoadTest_def collect_min initReport_def)
  have big: "MinTime rep = Hour" if "\<forall>r \<in> set (succeeded rs). sint Hour < sint (Duration r)"
  proof -
    have "Min (set (sint Hour # ?ds)) = sint Hour"
      using that by (intro Min_eqI) auto
    with m have "sint (MinTime rep) = sint Hour" by simp
    then show ?thesis by (rule signed_word_eqI)
  qed
  have none: "MinTime rep = Hour" if "succeeded rs = []"
    using big that by simp
  show ?thesis using rep m big none by blast
qed

theorem min_duration_capped_at_hour_witness:
  "succeeded
        [\<lparr>StatusCode = 200, Duration = 7200000000000, Error = None\<rparr>,
         \<lparr>StatusCode = 0, Duration = 5, Error = Some ''connection refused''\<rparr>] =
        [\<lparr>StatusCode = 200, Duration = 7200000000000, Error = None\<rparr>] \<and>
   sint Hour < sint (7200000000000 :: int64) \<and>
   (\<exists>rep. runLoadTest 2 9
        [\<lparr>StatusCode = 200, Duration = 7200000000000, Error = None\<rparr>,
         \<lparr>StatusCode = 0, Duration = 5, Error = Some ''connection refused''\<rparr>] = Inr rep \<and>
      MinTime rep = Hour)"
  using min_duration_capped_at_hour [of 2 9
        "[\<lparr>StatusCode = 200, Duration = 7200000000000, Error = None\<rparr>,
         \<lparr>StatusCode = 0, Duration = 5, Error = Some ''connection refused''\<rparr>]"]
  by (auto simp add: succeeded_def Hour_def)

end
